theory Spec2Isabelle
  imports Main
begin

section \<open>Data model (src/dto/internal-namespace.ts, migrations/001_create_contacts_table.sql)\<close>

datatype LinkPrecedence = PRIMARY | SECONDARY

text \<open>
  One row of the \<^verbatim>\<open>contacts\<close> table, as \<^verbatim>\<open>mapRowToContact\<close> hands it to the service.
  The field \<^verbatim>\<open>id\<close> is written \<open>id_c\<close>. A nullable string column is a \<open>string option\<close>
  (\<open>None\<close> is SQL NULL, JavaScript \<^verbatim>\<open>null\<close>); timestamps are natural numbers on one
  time scale.
\<close>

record Contact =
  id_c :: nat
  phoneNumber :: "string option"
  email :: "string option"
  linkedId :: "nat option"
  linkPrecedence :: LinkPrecedence
  createdAt :: nat
  updatedAt :: nat
  deletedAt :: "nat option"

text \<open>
  The request body: both fields are optional strings (\<open>None\<close> is JavaScript
  \<^verbatim>\<open>undefined\<close>).
\<close>

record IdentifyRequestBody =
  req_email :: "string option"
  req_phoneNumber :: "string option"

record IdentifyResponseBody =
  primaryContactId :: nat
  emails :: "string list"
  phoneNumbers :: "string list"
  secondaryContactIds :: "nat list"

text \<open>
  What the service can throw: the \<^verbatim>\<open>Error\<close> of the validation in \<^verbatim>\<open>identifyContact\<close>,
  the \<^verbatim>\<open>Error\<close> of \<^verbatim>\<open>updateLinkPrecedence\<close> when no row was updated, and the
  \<^verbatim>\<open>TypeError\<close> of reading a property of \<^verbatim>\<open>undefined\<close>.
\<close>

datatype error = EmailOrPhoneRequired | ContactNotFound | TypeError

text \<open>
  The database: the rows of \<^verbatim>\<open>contacts\<close>, the next value of the id sequence and the
  reading of \<^verbatim>\<open>CURRENT_TIMESTAMP\<close>. The queries order by \<^verbatim>\<open>created_at\<close> only, so the order
  of the list \<open>contacts\<close> stands for the order in which the database returns rows that
  \<^verbatim>\<open>ORDER BY created_at ASC\<close> does not tell apart: an insert appends, an update keeps the
  row's place. Statements always execute (no connectivity failure, no constraint
  violation), and one call of the service reads one clock value.
\<close>

record database =
  contacts :: "Contact list"
  contacts_id_seq :: nat
  now :: nat

section \<open>JavaScript and SQL comparisons\<close>

text \<open>\<^verbatim>\<open>if (v)\<close> on an optional string: \<^verbatim>\<open>undefined\<close>, \<^verbatim>\<open>null\<close> and \<^verbatim>\<open>''\<close> are falsy.\<close>

definition truthy :: "string option \<Rightarrow> bool" where
  "truthy v = (case v of None \<Rightarrow> False | Some s \<Rightarrow> s \<noteq> [])"

text \<open>
  \<^verbatim>\<open>contact.email === request.email\<close>: the column is a string or \<^verbatim>\<open>null\<close>, the request
  field a string or \<^verbatim>\<open>undefined\<close>, and \<^verbatim>\<open>null === undefined\<close> is false.
\<close>

definition strictEq :: "string option \<Rightarrow> string option \<Rightarrow> bool" where
  "strictEq column field =
     (case column of None \<Rightarrow> False
      | Some a \<Rightarrow> (case field of None \<Rightarrow> False | Some b \<Rightarrow> a = b))"

section \<open>The model class Contact (src/models/contact.ts)\<close>

text \<open>
  Both queries have the shape
  \<^verbatim>\<open>SELECT ... FROM contacts WHERE deleted_at IS NULL AND (...) ORDER BY created_at ASC\<close>:
  the rows that satisfy the condition, sorted by \<open>createdAt\<close> alone, rows of equal
  \<open>createdAt\<close> staying in the order of the table.
\<close>

definition selectOrdered :: "(Contact \<Rightarrow> bool) \<Rightarrow> Contact list \<Rightarrow> Contact list" where
  "selectOrdered cond rows = sort_key createdAt (filter cond rows)"

text \<open>
  The condition of \<^verbatim>\<open>findByEmailOrPhone\<close>: \<^verbatim>\<open>email = $1\<close> is there only for a truthy
  email, \<^verbatim>\<open>phone_number = $2\<close> only for a truthy phone number, joined by OR; a NULL
  column equals nothing.
\<close>

definition whereEmailOrPhone :: "string option \<Rightarrow> string option \<Rightarrow> Contact \<Rightarrow> bool" where
  "whereEmailOrPhone mail phone c =
     (deletedAt c = None \<and>
      ((truthy mail \<and> email c = mail) \<or> (truthy phone \<and> phoneNumber c = phone)))"

definition findByEmailOrPhone ::
  "string option \<Rightarrow> string option \<Rightarrow> database \<Rightarrow> Contact list" where
  "findByEmailOrPhone mail phone db =
     (if \<not> truthy mail \<and> \<not> truthy phone then []
      else selectOrdered (whereEmailOrPhone mail phone) (contacts db))"

text \<open>The condition of \<^verbatim>\<open>findLinkedContacts\<close>: \<^verbatim>\<open>id = $1 OR linked_id = $1\<close>.\<close>

definition whereLinked :: "nat \<Rightarrow> Contact \<Rightarrow> bool" where
  "whereLinked primaryId c =
     (deletedAt c = None \<and> (id_c c = primaryId \<or> linkedId c = Some primaryId))"

definition findLinkedContacts :: "nat \<Rightarrow> database \<Rightarrow> Contact list" where
  "findLinkedContacts primaryId db = selectOrdered (whereLinked primaryId) (contacts db)"

text \<open>
  \<^verbatim>\<open>INSERT INTO contacts (phone_number, email, linked_id, link_precedence) ... RETURNING\<close>:
  the new row takes the next id of the sequence, and the clock reading as \<open>createdAt\<close> and
  \<open>updatedAt\<close> (the defaults of the columns). An \<^verbatim>\<open>undefined\<close> field of the request is
  stored as NULL.
\<close>

definition create ::
  "string option \<Rightarrow> string option \<Rightarrow> nat option \<Rightarrow> LinkPrecedence \<Rightarrow> database
     \<Rightarrow> Contact \<times> database" where
  "create phone mail link prec db =
     (let contact = \<lparr>id_c = contacts_id_seq db, phoneNumber = phone, email = mail,
                      linkedId = link, linkPrecedence = prec,
                      createdAt = now db, updatedAt = now db, deletedAt = None\<rparr>
      in (contact, db\<lparr>contacts := contacts db @ [contact],
                       contacts_id_seq := Suc (contacts_id_seq db)\<rparr>))"

text \<open>
  \<^verbatim>\<open>UPDATE contacts SET linked_id = $1, link_precedence = 'secondary', updated_at =
  CURRENT_TIMESTAMP WHERE id = $2 AND deleted_at IS NULL RETURNING ...\<close>; when no row was
  updated, \<^verbatim>\<open>updateLinkPrecedence\<close> throws.
\<close>

definition demoted :: "nat \<Rightarrow> nat \<Rightarrow> Contact \<Rightarrow> Contact" where
  "demoted newLinkedId stamp c =
     c\<lparr>linkedId := Some newLinkedId, linkPrecedence := SECONDARY, updatedAt := stamp\<rparr>"

definition updateLinkPrecedence ::
  "nat \<Rightarrow> nat \<Rightarrow> database \<Rightarrow> (error + Contact) \<times> database" where
  "updateLinkPrecedence i newLinkedId db =
     (case filter (\<lambda>c. id_c c = i \<and> deletedAt c = None) (contacts db) of
        [] \<Rightarrow> (Inl ContactNotFound, db)
      | c # _ \<Rightarrow>
          (Inr (demoted newLinkedId (now db) c),
           db\<lparr>contacts := map (\<lambda>r. if id_c r = i \<and> deletedAt r = None
                                     then demoted newLinkedId (now db) r else r)
                                (contacts db)\<rparr>))"

section \<open>The service (src/services/identity-service.ts)\<close>

definition isPrimary :: "Contact \<Rightarrow> bool" where
  "isPrimary c = (linkPrecedence c = PRIMARY)"

definition isSecondary :: "Contact \<Rightarrow> bool" where
  "isSecondary c = (linkPrecedence c = SECONDARY)"

definition isRequestCoveredByContacts :: "Contact list \<Rightarrow> IdentifyRequestBody \<Rightarrow> bool" where
  "isRequestCoveredByContacts cs request =
     (if truthy (req_email request) \<and> truthy (req_phoneNumber request) then
        list_ex (\<lambda>c. strictEq (email c) (req_email request)) cs \<and>
        list_ex (\<lambda>c. strictEq (phoneNumber c) (req_phoneNumber request)) cs
      else if truthy (req_email request) \<and> \<not> truthy (req_phoneNumber request) then
        list_ex (\<lambda>c. strictEq (email c) (req_email request)) cs
      else if truthy (req_phoneNumber request) \<and> \<not> truthy (req_email request) then
        list_ex (\<lambda>c. strictEq (phoneNumber c) (req_phoneNumber request)) cs
      else False)"

definition needsNewSecondaryContact :: "Contact list \<Rightarrow> IdentifyRequestBody \<Rightarrow> bool" where
  "needsNewSecondaryContact existingContacts request =
     (let exactMatch = list_ex (\<lambda>c. strictEq (email c) (req_email request) \<and>
                                     strictEq (phoneNumber c) (req_phoneNumber request))
                               existingContacts
      in if exactMatch then False
         else
           let emailExists = (if truthy (req_email request)
                              then list_ex (\<lambda>c. strictEq (email c) (req_email request))
                                           existingContacts
                              else True);
               phoneExists = (if truthy (req_phoneNumber request)
                              then list_ex (\<lambda>c. strictEq (phoneNumber c)
                                                          (req_phoneNumber request))
                                           existingContacts
                              else True)
           in if truthy (req_email request) \<and> truthy (req_phoneNumber request)
              then \<not> exactMatch
              else if truthy (req_email request) \<and> \<not> truthy (req_phoneNumber request)
              then \<not> emailExists
              else if truthy (req_phoneNumber request) \<and> \<not> truthy (req_email request)
              then \<not> phoneExists
              else False)"

text \<open>
  \<^verbatim>\<open>if (v) set.add(v)\<close> on a JavaScript \<^verbatim>\<open>Set\<close>, which keeps insertion order and ignores
  a value it already holds; \<^verbatim>\<open>Array.from\<close> then lists the values in that order.
\<close>

definition addTruthy :: "string option \<Rightarrow> string list \<Rightarrow> string list" where
  "addTruthy v s =
     (case v of None \<Rightarrow> s
      | Some x \<Rightarrow> if x = [] then s else if x \<in> set s then s else s @ [x])"

fun indexOf :: "string list \<Rightarrow> string \<Rightarrow> nat option" where
  "indexOf [] x = None"
| "indexOf (y # ys) x = (if y = x then Some 0 else map_option Suc (indexOf ys x))"

text \<open>
  The blocks "Ensure primary email is first" and "Ensure primary phone is first": when
  the primary's value is truthy and is not at index 0, it is swapped with index 0. The
  value was added to the set before any other, so the guard never holds on the arrays
  that \<^verbatim>\<open>buildResponse\<close> builds (lemma \<open>primaryFirst_addTruthy\<close> below). Under the guard
  \<^verbatim>\<open>indexOf\<close> cannot miss there either; for a miss, where JavaScript would write
  \<^verbatim>\<open>undefined\<close> into the array, the model leaves the array alone.
\<close>

definition primaryFirst :: "string option \<Rightarrow> string list \<Rightarrow> string list" where
  "primaryFirst v arr =
     (case v of None \<Rightarrow> arr
      | Some x \<Rightarrow>
          if x \<noteq> [] \<and> (case arr of [] \<Rightarrow> True | y # _ \<Rightarrow> y \<noteq> x) then
            (case indexOf arr x of None \<Rightarrow> arr
             | Some k \<Rightarrow> arr[0 := arr ! k, k := arr ! 0])
          else arr)"

definition buildResponse :: "nat \<Rightarrow> database \<Rightarrow> error + IdentifyResponseBody" where
  "buildResponse primaryId db =
     (let linkedContacts = findLinkedContacts primaryId db
      in case find isPrimary linkedContacts of
           None \<Rightarrow> Inl TypeError
         | Some primary \<Rightarrow>
             let secondaries = filter isSecondary linkedContacts;
                 sets = foldl (\<lambda>(es, ps) c. (addTruthy (email c) es,
                                              addTruthy (phoneNumber c) ps))
                              (addTruthy (email primary) [],
                               addTruthy (phoneNumber primary) [])
                              secondaries
             in Inr \<lparr>primaryContactId = id_c primary,
                     emails = primaryFirst (email primary) (fst sets),
                     phoneNumbers = primaryFirst (phoneNumber primary) (snd sets),
                     secondaryContactIds = map id_c secondaries\<rparr>)"

definition createNewPrimaryContact ::
  "IdentifyRequestBody \<Rightarrow> database \<Rightarrow> (error + IdentifyResponseBody) \<times> database" where
  "createNewPrimaryContact request db =
     (case create (req_phoneNumber request) (req_email request) None PRIMARY db of
        (newContact, db') \<Rightarrow>
          (Inr \<lparr>primaryContactId = id_c newContact,
                emails = addTruthy (email newContact) [],
                phoneNumbers = addTruthy (phoneNumber newContact) [],
                secondaryContactIds = []\<rparr>, db'))"

text \<open>The loop over \<^verbatim>\<open>contactsToMerge\<close>: a failed update leaves the loop with the error.\<close>

fun demoteEach :: "Contact list \<Rightarrow> nat \<Rightarrow> database \<Rightarrow> error option \<times> database" where
  "demoteEach [] survivorId db = (None, db)"
| "demoteEach (c # cs) survivorId db =
     (case updateLinkPrecedence (id_c c) survivorId db of
        (Inl e, db') \<Rightarrow> (Some e, db')
      | (Inr _, db') \<Rightarrow> demoteEach cs survivorId db')"

text \<open>
  \<^verbatim>\<open>primaryContacts.sort((a, b) => a.createdAt!.getTime() - b.createdAt!.getTime())\<close> is a
  stable sort by \<open>createdAt\<close>. The first contact of the sorted array remains primary, the
  others are demoted one after the other, and the coverage test reads the contacts as
  they were fetched. An empty array would make \<^verbatim>\<open>remainingPrimary\<close> undefined and the
  read of its id throw.
\<close>

definition mergePrimaryContacts ::
  "Contact list \<Rightarrow> IdentifyRequestBody \<Rightarrow> database
     \<Rightarrow> (error + IdentifyResponseBody) \<times> database" where
  "mergePrimaryContacts primaryContacts request db =
     (case sort_key createdAt primaryContacts of
        [] \<Rightarrow> (Inl TypeError, db)
      | remainingPrimary # contactsToMerge \<Rightarrow>
          (case demoteEach contactsToMerge (id_c remainingPrimary) db of
             (Some e, db1) \<Rightarrow> (Inl e, db1)
           | (None, db1) \<Rightarrow>
               let db2 = (if \<not> isRequestCoveredByContacts
                                  (remainingPrimary # contactsToMerge) request
                          then snd (create (req_phoneNumber request) (req_email request)
                                           (Some (id_c remainingPrimary)) SECONDARY db1)
                          else db1)
               in (buildResponse (id_c remainingPrimary) db2, db2)))"

text \<open>
  \<^verbatim>\<open>primaryContacts[0] || (await findLinkedContacts(existingContacts[0].linkedId!))[0]\<close>.
  A null \<^verbatim>\<open>linkedId\<close> makes the query compare with NULL, which selects no row; an empty
  result makes the expression \<^verbatim>\<open>undefined\<close>, here \<open>None\<close>.
\<close>

definition primaryContactOf :: "Contact list \<Rightarrow> Contact list \<Rightarrow> database \<Rightarrow> Contact option" where
  "primaryContactOf primaryContacts existingContacts db =
     (case primaryContacts of
        p # _ \<Rightarrow> Some p
      | [] \<Rightarrow>
          (case existingContacts of
             [] \<Rightarrow> None
           | c # _ \<Rightarrow>
               (case linkedId c of
                  None \<Rightarrow> None
                | Some l \<Rightarrow>
                    (case findLinkedContacts l db of [] \<Rightarrow> None | a # _ \<Rightarrow> Some a))))"

text \<open>
  The \<^verbatim>\<open>catch\<close> of \<^verbatim>\<open>identifyContact\<close> logs and throws again, so an error of a
  callee is the error of the call, and what was written before the error stays written.
\<close>

definition identifyContact ::
  "IdentifyRequestBody \<Rightarrow> database \<Rightarrow> (error + IdentifyResponseBody) \<times> database" where
  "identifyContact request db =
     (if \<not> truthy (req_email request) \<and> \<not> truthy (req_phoneNumber request)
      then (Inl EmailOrPhoneRequired, db)
      else
        let existingContacts =
              findByEmailOrPhone (req_email request) (req_phoneNumber request) db
        in if existingContacts = [] then createNewPrimaryContact request db
           else
             let primaryContacts = filter isPrimary existingContacts
             in if length primaryContacts > 1
                then mergePrimaryContacts primaryContacts request db
                else
                  (case primaryContactOf primaryContacts existingContacts db of
                     None \<Rightarrow> (Inl TypeError, db)
                   | Some primaryContact \<Rightarrow>
                       let allLinkedContacts =
                             findLinkedContacts (id_c primaryContact) db;
                           db' = (if needsNewSecondaryContact allLinkedContacts request
                                  then snd (create (req_phoneNumber request)
                                                   (req_email request)
                                                   (Some (id_c primaryContact))
                                                   SECONDARY db)
                                  else db)
                       in (buildResponse (id_c primaryContact) db', db')))"

section \<open>Notions used to state the properties\<close>

abbreviation matchedContacts :: "IdentifyRequestBody \<Rightarrow> database \<Rightarrow> Contact list" where
  "matchedContacts request db \<equiv>
     findByEmailOrPhone (req_email request) (req_phoneNumber request) db"

abbreviation matchedPrimaries :: "IdentifyRequestBody \<Rightarrow> database \<Rightarrow> Contact list" where
  "matchedPrimaries request db \<equiv> filter isPrimary (matchedContacts request db)"

text \<open>
  The table after the rows whose id is in \<open>ids\<close> (and that are not soft-deleted) have been
  demoted to secondaries of \<open>newLinkedId\<close>.
\<close>

definition demoteRows :: "nat set \<Rightarrow> nat \<Rightarrow> nat \<Rightarrow> Contact list \<Rightarrow> Contact list" where
  "demoteRows ids newLinkedId stamp rows =
     map (\<lambda>r. if id_c r \<in> ids \<and> deletedAt r = None then demoted newLinkedId stamp r else r)
         rows"

text \<open>The secondary contact that a call inserts for its request, linked to \<open>primaryId\<close>.\<close>

definition newSecondary :: "IdentifyRequestBody \<Rightarrow> nat \<Rightarrow> database \<Rightarrow> Contact" where
  "newSecondary request primaryId db =
     \<lparr>id_c = contacts_id_seq db, phoneNumber = req_phoneNumber request,
      email = req_email request, linkedId = Some primaryId, linkPrecedence = SECONDARY,
      createdAt = now db, updatedAt = now db, deletedAt = None\<rparr>"

text \<open>
  The coverage test of the merge branch in the words of the specification: each supplied
  field, on its own, equals that field of some matched primary.
\<close>

definition coveredPerField :: "Contact list \<Rightarrow> IdentifyRequestBody \<Rightarrow> bool" where
  "coveredPerField primaries request =
     ((truthy (req_email request) \<longrightarrow>
         (\<exists>p \<in> set primaries. email p = req_email request)) \<and>
      (truthy (req_phoneNumber request) \<longrightarrow>
         (\<exists>p \<in> set primaries. phoneNumber p = req_phoneNumber request)))"


text \<open>
  The test of the direct branch in the words of the specification: with both fields
  supplied, no member carries the exact pair; with only the email, no member carries the
  email; with only the phone number, no member carries the phone number.
\<close>

definition secondaryRequired :: "Contact list \<Rightarrow> IdentifyRequestBody \<Rightarrow> bool" where
  "secondaryRequired cluster request =
     (if truthy (req_email request) \<and> truthy (req_phoneNumber request) then
        \<not> (\<exists>m \<in> set cluster. email m = req_email request \<and>
                                phoneNumber m = req_phoneNumber request)
      else if truthy (req_email request) then
        \<not> (\<exists>m \<in> set cluster. email m = req_email request)
      else
        \<not> (\<exists>m \<in> set cluster. phoneNumber m = req_phoneNumber request))"

text \<open>
  The order of the specification: ascending \<open>createdAt\<close>, and for equal \<open>createdAt\<close> the
  lower id counts as older. \<open>leastByCreatedAtThenId ps s\<close> says that \<open>s\<close> is the member of
  \<open>ps\<close> that is older than every other one.
\<close>

definition olderThan :: "Contact \<Rightarrow> Contact \<Rightarrow> bool" where
  "olderThan a b =
     (createdAt a < createdAt b \<or> (createdAt a = createdAt b \<and> id_c a < id_c b))"

definition leastByCreatedAtThenId :: "Contact list \<Rightarrow> Contact \<Rightarrow> bool" where
  "leastByCreatedAtThenId ps s = (s \<in> set ps \<and> (\<forall>p \<in> set ps. p = s \<or> olderThan s p))"

text \<open>
  What the schema and the data model demand of a store: ids are unique and below the next
  value of the sequence, a contact is PRIMARY exactly when its \<open>linkedId\<close> is null, and a
  \<open>linkedId\<close> names a row of the table (the foreign key).
\<close>

definition wellFormed :: "database \<Rightarrow> bool" where
  "wellFormed db =
     (distinct (map id_c (contacts db)) \<and>
      (\<forall>c \<in> set (contacts db).
          id_c c < contacts_id_seq db \<and>
          (linkPrecedence c = PRIMARY \<longleftrightarrow> linkedId c = None) \<and>
          set_option (linkedId c) \<subseteq> id_c ` set (contacts db)))"

text \<open>
  Identity clusters: two contacts are in the same cluster when a chain of \<open>linkedId\<close>
  references, followed in either direction, joins them.
\<close>

definition links :: "Contact list \<Rightarrow> (nat \<times> nat) set" where
  "links rows = {(i, l). \<exists>c \<in> set rows. id_c c = i \<and> linkedId c = Some l}"

definition sameCluster :: "Contact list \<Rightarrow> (nat \<times> nat) set" where
  "sameCluster rows = (links rows \<union> (links rows)\<inverse>)\<^sup>*"

definition primaryIds :: "Contact list \<Rightarrow> nat set" where
  "primaryIds rows = {i. \<exists>c \<in> set rows. id_c c = i \<and> linkPrecedence c = PRIMARY}"

definition onePrimaryPerCluster :: "database \<Rightarrow> bool" where
  "onePrimaryPerCluster db =
     (\<forall>c \<in> set (contacts db).
         \<exists>!p. p \<in> primaryIds (contacts db) \<and> (id_c c, p) \<in> sameCluster (contacts db))"

text \<open>
  A sequential execution: the calls run one after the other, each at the clock reading
  given with its request.
\<close>

fun runAll :: "(nat \<times> IdentifyRequestBody) list \<Rightarrow> database \<Rightarrow> database" where
  "runAll [] db = db"
| "runAll ((t, request) # calls) db =
     runAll calls (snd (identifyContact request (db\<lparr>now := t\<rparr>)))"

text \<open>A member carries the request's exact pair of email and phone number.\<close>

definition carriesExactPair :: "Contact list \<Rightarrow> IdentifyRequestBody \<Rightarrow> bool" where
  "carriesExactPair cluster request =
     (\<exists>m \<in> set cluster. email m = req_email request \<and>
                           phoneNumber m = req_phoneNumber request)"

section \<open>Example requests and stores\<close>

definition request_of :: "string option \<Rightarrow> string option \<Rightarrow> IdentifyRequestBody" where
  "request_of mail phone = \<lparr>req_email = mail, req_phoneNumber = phone\<rparr>"

definition contact_of ::
  "nat \<Rightarrow> string option \<Rightarrow> string option \<Rightarrow> nat option \<Rightarrow> LinkPrecedence \<Rightarrow> nat
     \<Rightarrow> Contact" where
  "contact_of i mail phone link prec stamp =
     \<lparr>id_c = i, phoneNumber = phone, email = mail, linkedId = link, linkPrecedence = prec,
      createdAt = stamp, updatedAt = stamp, deletedAt = None\<rparr>"

definition at_time :: "nat \<Rightarrow> database \<Rightarrow> database" where
  "at_time t db = db\<lparr>now := t\<rparr>"

definition emptyDb :: database where
  "emptyDb = \<lparr>contacts = [], contacts_id_seq = 1, now = 10\<rparr>"

text \<open>Two customers, the second with one secondary contact of its own.\<close>

definition familyDb :: database where
  "familyDb =
     \<lparr>contacts = [contact_of 1 (Some ''a@x'') (Some ''1'') None PRIMARY 10,
                  contact_of 2 (Some ''b@x'') (Some ''2'') None PRIMARY 20,
                  contact_of 3 (Some ''c@x'') (Some ''2'') (Some 2) SECONDARY 30],
      contacts_id_seq = 4, now = 40\<rparr>"

text \<open>\<open>familyDb\<close> after the request \<open>a@x\<close>, \<open>2\<close> has merged the two customers.\<close>

definition mergedDb :: database where
  "mergedDb =
     \<lparr>contacts = [contact_of 1 (Some ''a@x'') (Some ''1'') None PRIMARY 10,
                  (contact_of 2 (Some ''b@x'') (Some ''2'') (Some 1) SECONDARY 20)
                    \<lparr>updatedAt := 40\<rparr>,
                  contact_of 3 (Some ''c@x'') (Some ''2'') (Some 2) SECONDARY 30],
      contacts_id_seq = 4, now = 40\<rparr>"

text \<open>Two primaries that share an email, as two racing first requests leave them.\<close>

definition twinDb :: database where
  "twinDb =
     \<lparr>contacts = [contact_of 1 (Some ''a@x'') (Some ''1'') None PRIMARY 10,
                  contact_of 2 (Some ''a@x'') (Some ''2'') None PRIMARY 20],
      contacts_id_seq = 3, now = 30\<rparr>"

text \<open>
  Two customers created at the same instant (two rows of one transaction), which the
  database returns with the higher id first.
\<close>

definition tieDb :: database where
  "tieDb =
     \<lparr>contacts = [contact_of 2 (Some ''b@x'') (Some ''2'') None PRIMARY 10,
                  contact_of 1 (Some ''a@x'') (Some ''1'') None PRIMARY 10],
      contacts_id_seq = 3, now = 20\<rparr>"

text \<open>
  A primary with two secondaries created at the same instant, which the database returns
  with the higher id first; the first of them has the empty string as its email.
\<close>

definition twoSecondariesDb :: database where
  "twoSecondariesDb =
     \<lparr>contacts = [contact_of 1 (Some ''a@x'') (Some ''1'') None PRIMARY 10,
                  contact_of 3 (Some '''') (Some ''3'') (Some 1) SECONDARY 20,
                  contact_of 2 (Some ''b@x'') (Some ''2'') (Some 1) SECONDARY 20],
      contacts_id_seq = 4, now = 30\<rparr>"

section \<open>Auxiliary facts\<close>

lemma find_None_all: "find P xs = None \<longleftrightarrow> (\<forall>x\<in>set xs. \<not> P x)"
  by (induction xs) auto

lemma find_Some_D: "find P xs = Some x \<Longrightarrow> x \<in> set xs \<and> P x"
  by (induction xs) (auto split: if_splits)

lemma familyDb_reached:
  "snd (identifyContact (request_of (Some ''c@x'') (Some ''2''))
     (at_time 30 (snd (identifyContact (request_of (Some ''b@x'') (Some ''2''))
        (at_time 20 (snd (identifyContact (request_of (Some ''a@x'') (Some ''1''))
           emptyDb)))))))
   = at_time 30 familyDb"
  by code_simp

lemma mergedDb_reached:
  "identifyContact (request_of (Some ''a@x'') (Some ''2'')) familyDb =
     (Inr \<lparr>primaryContactId = 1, emails = [''a@x'', ''b@x''], phoneNumbers = [''1'', ''2''],
           secondaryContactIds = [2]\<rparr>, mergedDb)"
  by code_simp

subsection \<open>Building the response\<close>

lemma buildResponse_no_primary:
  "find isPrimary (findLinkedContacts p d) = None \<Longrightarrow> buildResponse p d = Inl TypeError"
  by (simp add: buildResponse_def)

lemma buildResponse_primary:
  "find isPrimary (findLinkedContacts p d) = Some a \<Longrightarrow> \<exists>v. buildResponse p d = Inr v"
  by (simp add: buildResponse_def Let_def)

lemma buildResponse_TypeError_iff:
  "buildResponse p d = Inl TypeError \<longleftrightarrow>
     (\<forall>c \<in> set (findLinkedContacts p d). linkPrecedence c \<noteq> PRIMARY)"
proof (cases "find isPrimary (findLinkedContacts p d)")
  case None
  then show ?thesis
    using buildResponse_no_primary [OF None] by (simp add: find_None_all isPrimary_def)
next
  case (Some a)
  then have "a \<in> set (findLinkedContacts p d) \<and> isPrimary a"
    by (rule find_Some_D)
  with buildResponse_primary [OF Some] show ?thesis
    by (auto simp: isPrimary_def)
qed

section \<open>Validation\<close>

text \<open>
  C9. A request in which neither email nor phoneNumber is set (absent, or the empty
  string, which the check treats alike) is rejected with the validation error, whatever
  the store holds, and the store is returned as it was: no row is created or modified.
\<close>

theorem identify_rejects_request_without_fields:
  "\<not> truthy (req_email request) \<Longrightarrow> \<not> truthy (req_phoneNumber request) \<Longrightarrow>
     identifyContact request db = (Inl EmailOrPhoneRequired, db)"
  by (simp add: identifyContact_def)

theorem identify_rejects_request_without_fields_witness:
  "\<not> truthy (req_email (request_of None None)) \<and>
   \<not> truthy (req_phoneNumber (request_of None None)) \<and>
   identifyContact (request_of None None) familyDb = (Inl EmailOrPhoneRequired, familyDb)"
proof -
  have a: "\<not> truthy (req_email (request_of None None))"
    by (simp add: request_of_def truthy_def)
  have b: "\<not> truthy (req_phoneNumber (request_of None None))"
    by (simp add: request_of_def truthy_def)
  from identify_rejects_request_without_fields [OF a b, of familyDb] a b
  show ?thesis by simp
qed

subsection \<open>Demotion\<close>

lemma map_if_filter_empty:
  "filter P xs = [] \<Longrightarrow> map (\<lambda>r. if P r then f r else r) xs = xs"
  by (induction xs) (auto split: if_splits)

lemma updateLinkPrecedence_contacts:
  "contacts (snd (updateLinkPrecedence i l db)) = demoteRows {i} l (now db) (contacts db)"
proof (cases "filter (\<lambda>c. id_c c = i \<and> deletedAt c = None) (contacts db)")
  case Nil
  from map_if_filter_empty [OF this, of "demoted l (now db)"] Nil show ?thesis
    by (simp add: updateLinkPrecedence_def demoteRows_def)
next
  case (Cons a as)
  then show ?thesis
    by (simp add: updateLinkPrecedence_def demoteRows_def)
qed

lemma updateLinkPrecedence_seq [simp]:
  "contacts_id_seq (snd (updateLinkPrecedence i l db)) = contacts_id_seq db"
  by (simp add: updateLinkPrecedence_def split: list.split)

lemma updateLinkPrecedence_now [simp]:
  "now (snd (updateLinkPrecedence i l db)) = now db"
  by (simp add: updateLinkPrecedence_def split: list.split)

lemma updateLinkPrecedence_found:
  assumes "r \<in> set (contacts db)" "id_c r = i" "deletedAt r = None"
  shows "\<exists>c. fst (updateLinkPrecedence i l db) = Inr c"
proof -
  from assms have "r \<in> set (filter (\<lambda>c. id_c c = i \<and> deletedAt c = None) (contacts db))"
    by simp
  then obtain a as where "filter (\<lambda>c. id_c c = i \<and> deletedAt c = None) (contacts db) = a # as"
    by (cases "filter (\<lambda>c. id_c c = i \<and> deletedAt c = None) (contacts db)") auto
  then show ?thesis
    by (simp add: updateLinkPrecedence_def)
qed

lemma demoted_fields [simp]:
  "id_c (demoted l t c) = id_c c" "email (demoted l t c) = email c"
  "phoneNumber (demoted l t c) = phoneNumber c" "createdAt (demoted l t c) = createdAt c"
  "deletedAt (demoted l t c) = deletedAt c" "linkedId (demoted l t c) = Some l"
  "linkPrecedence (demoted l t c) = SECONDARY" "updatedAt (demoted l t c) = t"
  by (simp_all add: demoted_def)

lemma demoted_idem [simp]: "demoted l t (demoted l t c) = demoted l t c"
  by (simp add: demoted_def)

lemma demoteRows_insert:
  "demoteRows ids l t (demoteRows {i} l t rows) = demoteRows (insert i ids) l t rows"
  by (induction rows) (auto simp: demoteRows_def)

lemma demoteRows_empty [simp]: "demoteRows {} l t rows = rows"
  by (induction rows) (auto simp: demoteRows_def)

lemma length_demoteRows [simp]: "length (demoteRows ids l t rows) = length rows"
  by (simp add: demoteRows_def)

lemma map_id_demoteRows [simp]: "map id_c (demoteRows ids l t rows) = map id_c rows"
  by (induction rows) (auto simp: demoteRows_def)

lemma nth_demoteRows:
  "k < length rows \<Longrightarrow>
     demoteRows ids l t rows ! k =
       (if id_c (rows ! k) \<in> ids \<and> deletedAt (rows ! k) = None
        then demoted l t (rows ! k) else rows ! k)"
  by (simp add: demoteRows_def)

lemma demoteRows_keeps:
  "c \<in> set rows \<Longrightarrow> id_c c \<notin> ids \<Longrightarrow> c \<in> set (demoteRows ids l t rows)"
  by (induction rows) (auto simp: demoteRows_def)

lemma live_id_demoteRows:
  "(\<exists>r\<in>set (demoteRows ids l t rows). id_c r = i \<and> deletedAt r = None) \<longleftrightarrow>
   (\<exists>r\<in>set rows. id_c r = i \<and> deletedAt r = None)"
  by (induction rows) (auto simp: demoteRows_def)

lemma demoteEach_contacts:
  "(\<forall>c\<in>set cs. \<exists>r\<in>set (contacts db). id_c r = id_c c \<and> deletedAt r = None) \<Longrightarrow>
     demoteEach cs l db =
       (None, db\<lparr>contacts := demoteRows (id_c ` set cs) l (now db) (contacts db)\<rparr>)"
proof (induction cs arbitrary: db)
  case Nil
  then show ?case by simp
next
  case (Cons c cs)
  obtain res db1 where u: "updateLinkPrecedence (id_c c) l db = (res, db1)"
    by (cases "updateLinkPrecedence (id_c c) l db")
  from Cons.prems obtain r where "r \<in> set (contacts db)" "id_c r = id_c c" "deletedAt r = None"
    by auto
  from updateLinkPrecedence_found [OF this, of l] u obtain k where res: "res = Inr k"
    by auto
  have c1: "contacts db1 = demoteRows {id_c c} l (now db) (contacts db)"
    using updateLinkPrecedence_contacts [of "id_c c" l db] u by simp
  have n1: "now db1 = now db" and s1: "contacts_id_seq db1 = contacts_id_seq db"
    using updateLinkPrecedence_now [of "id_c c" l db] updateLinkPrecedence_seq [of "id_c c" l db] u
    by simp_all
  have pre: "\<forall>c\<in>set cs. \<exists>r\<in>set (contacts db1). id_c r = id_c c \<and> deletedAt r = None"
    using Cons.prems by (simp add: c1 live_id_demoteRows)
  have "demoteEach (c # cs) l db = demoteEach cs l db1"
    by (simp add: u res)
  also have "\<dots> = (None, db1\<lparr>contacts := demoteRows (id_c ` set cs) l (now db1) (contacts db1)\<rparr>)"
    by (rule Cons.IH [OF pre])
  also have "db1\<lparr>contacts := demoteRows (id_c ` set cs) l (now db1) (contacts db1)\<rparr>
      = db\<lparr>contacts := demoteRows (id_c ` set (c # cs)) l (now db) (contacts db)\<rparr>"
    using c1 n1 s1 by (simp add: demoteRows_insert)
  finally show ?case .
qed

lemma demoteEach_keeps:
  "c \<in> set (contacts db) \<Longrightarrow> id_c c \<notin> id_c ` set cs \<Longrightarrow>
     c \<in> set (contacts (snd (demoteEach cs l db)))"
proof (induction cs arbitrary: db)
  case Nil
  then show ?case by simp
next
  case (Cons a cs)
  obtain res db1 where u: "updateLinkPrecedence (id_c a) l db = (res, db1)"
    by (cases "updateLinkPrecedence (id_c a) l db")
  have c1: "contacts db1 = demoteRows {id_c a} l (now db) (contacts db)"
    using updateLinkPrecedence_contacts [of "id_c a" l db] u by simp
  have in1: "c \<in> set (contacts db1)"
    using Cons.prems by (simp add: c1 demoteRows_keeps)
  show ?case
  proof (cases res)
    case (Inl e)
    with u in1 show ?thesis by simp
  next
    case (Inr k)
    with u have "demoteEach (a # cs) l db = demoteEach cs l db1" by simp
    with Cons.IH [OF in1] Cons.prems show ?thesis by simp
  qed
qed

section \<open>Demotion touches one row\<close>

text \<open>
  C8. A demotion that succeeds leaves the table as long as it was and the id sequence
  where it was; the row of the demoted id becomes SECONDARY, linked to the new primary,
  with \<open>updatedAt\<close> set to the clock, and keeps its id, email, phone number, \<open>createdAt\<close>
  and \<open>deletedAt\<close>; every other row is what it was. In particular a contact linked to
  the demoted one is still in the table, unchanged, so its \<open>linkedId\<close> still names the
  demoted contact. And whatever the loop of a merge does, a row whose id is not among the
  contacts to merge is still in the table, unchanged.
\<close>

theorem demotion_updates_only_its_own_row:
  "(updateLinkPrecedence i newPrimaryId db = (Inr updated, db') \<longrightarrow>
      length (contacts db') = length (contacts db) \<and>
      contacts_id_seq db' = contacts_id_seq db \<and>
      (\<forall>k < length (contacts db).
         if id_c (contacts db ! k) = i \<and> deletedAt (contacts db ! k) = None
         then linkPrecedence (contacts db' ! k) = SECONDARY \<and>
              linkedId (contacts db' ! k) = Some newPrimaryId \<and>
              updatedAt (contacts db' ! k) = now db \<and>
              id_c (contacts db' ! k) = id_c (contacts db ! k) \<and>
              email (contacts db' ! k) = email (contacts db ! k) \<and>
              phoneNumber (contacts db' ! k) = phoneNumber (contacts db ! k) \<and>
              createdAt (contacts db' ! k) = createdAt (contacts db ! k) \<and>
              deletedAt (contacts db' ! k) = deletedAt (contacts db ! k)
         else contacts db' ! k = contacts db ! k) \<and>
      (\<forall>child \<in> set (contacts db).
         linkedId child = Some i \<and> id_c child \<noteq> i \<longrightarrow> child \<in> set (contacts db'))) \<and>
   (\<forall>c \<in> set (contacts db).
      id_c c \<notin> id_c ` set contactsToMerge \<longrightarrow>
      c \<in> set (contacts (snd (demoteEach contactsToMerge survivorId db))))"
proof -
  have one: "contacts db' = demoteRows {i} newPrimaryId (now db) (contacts db)"
    and "contacts_id_seq db' = contacts_id_seq db"
    if "updateLinkPrecedence i newPrimaryId db = (Inr updated, db')"
    using updateLinkPrecedence_contacts [of i newPrimaryId db]
      updateLinkPrecedence_seq [of i newPrimaryId db] that by simp_all
  then show ?thesis
    by (auto simp: nth_demoteRows demoteRows_keeps demoteEach_keeps)
qed

theorem demotion_updates_only_its_own_row_witness:
  "updateLinkPrecedence 2 1 familyDb =
     (Inr ((contact_of 2 (Some ''b@x'') (Some ''2'') (Some 1) SECONDARY 20)
             \<lparr>updatedAt := 40\<rparr>), mergedDb) \<and>
   length (contacts mergedDb) = length (contacts familyDb) \<and>
   contacts mergedDb ! 0 = contacts familyDb ! 0 \<and>
   createdAt (contacts mergedDb ! 1) = createdAt (contacts familyDb ! 1) \<and>
   contact_of 3 (Some ''c@x'') (Some ''2'') (Some 2) SECONDARY 30 \<in> set (contacts mergedDb)"
proof -
  have run: "updateLinkPrecedence 2 1 familyDb =
     (Inr ((contact_of 2 (Some ''b@x'') (Some ''2'') (Some 1) SECONDARY 20)
             \<lparr>updatedAt := 40\<rparr>), mergedDb)"
    by code_simp
  note inst = demotion_updates_only_its_own_row
      [of 2 1 familyDb "(contact_of 2 (Some ''b@x'') (Some ''2'') (Some 1) SECONDARY 20)
             \<lparr>updatedAt := 40\<rparr>" mergedDb "[]" 1]
  from inst run have
    len: "length (contacts mergedDb) = length (contacts familyDb)" and
    rows: "\<forall>k < length (contacts familyDb).
         if id_c (contacts familyDb ! k) = 2 \<and> deletedAt (contacts familyDb ! k) = None
         then linkPrecedence (contacts mergedDb ! k) = SECONDARY \<and>
              linkedId (contacts mergedDb ! k) = Some 1 \<and>
              updatedAt (contacts mergedDb ! k) = now familyDb \<and>
              id_c (contacts mergedDb ! k) = id_c (contacts familyDb ! k) \<and>
              email (contacts mergedDb ! k) = email (contacts familyDb ! k) \<and>
              phoneNumber (contacts mergedDb ! k) = phoneNumber (contacts familyDb ! k) \<and>
              createdAt (contacts mergedDb ! k) = createdAt (contacts familyDb ! k) \<and>
              deletedAt (contacts mergedDb ! k) = deletedAt (contacts familyDb ! k)
         else contacts mergedDb ! k = contacts familyDb ! k" and
    kids: "\<forall>child \<in> set (contacts familyDb).
         linkedId child = Some 2 \<and> id_c child \<noteq> 2 \<longrightarrow> child \<in> set (contacts mergedDb)"
    by blast+
  have l3: "length (contacts familyDb) = 3" by (simp add: familyDb_def)
  have r0: "contacts mergedDb ! 0 = contacts familyDb ! 0"
    using rows [rule_format, of 0] by (simp add: familyDb_def contact_of_def)
  have r1: "createdAt (contacts mergedDb ! 1) = createdAt (contacts familyDb ! 1)"
    using rows [rule_format, of 1] by (simp add: familyDb_def contact_of_def)
  have r2: "contact_of 3 (Some ''c@x'') (Some ''2'') (Some 2) SECONDARY 30 \<in> set (contacts mergedDb)"
    using kids [rule_format, of "contact_of 3 (Some ''c@x'') (Some ''2'') (Some 2) SECONDARY 30"]
    by (simp add: familyDb_def contact_of_def)
  from run len r0 r1 r2 show ?thesis by blast
qed

subsection \<open>The queries\<close>

lemma set_selectOrdered [simp]: "set (selectOrdered cond rows) = {c \<in> set rows. cond c}"
  by (auto simp: selectOrdered_def)

lemma sorted_selectOrdered: "sorted (map createdAt (selectOrdered cond rows))"
  by (simp add: selectOrdered_def sorted_sort_key)

lemma filter_selectOrdered:
  "filter Q (selectOrdered cond rows) = selectOrdered (\<lambda>c. cond c \<and> Q c) rows"
  by (simp add: selectOrdered_def filter_sort)

lemma sort_selectOrdered [simp]:
  "sort_key createdAt (selectOrdered cond rows) = selectOrdered cond rows"
  by (rule sort_key_id_if_sorted) (rule sorted_selectOrdered)

lemma selectOrdered_empty_iff: "selectOrdered cond rows = [] \<longleftrightarrow> (\<forall>c\<in>set rows. \<not> cond c)"
proof -
  have "selectOrdered cond rows = [] \<longleftrightarrow> set (selectOrdered cond rows) = {}"
    by (simp only: set_empty)
  then show ?thesis by auto
qed

lemma insort_key_snoc:
  "f y \<le> f x \<Longrightarrow> insort_key f y (zs @ [x]) = insort_key f y zs @ [x]"
  by (induction zs) auto

lemma sort_key_snoc:
  "\<forall>y\<in>set xs. f y \<le> f x \<Longrightarrow> sort_key f (xs @ [x]) = sort_key f xs @ [x]"
  by (induction xs) (auto simp: insort_key_snoc)

lemma selectOrdered_snoc:
  "\<forall>c\<in>set rows. createdAt c \<le> createdAt n \<Longrightarrow>
     selectOrdered cond (rows @ [n]) =
       (if cond n then selectOrdered cond rows @ [n] else selectOrdered cond rows)"
  by (simp add: selectOrdered_def sort_key_snoc)

lemma insort_key_map:
  "(\<And>x. f (g x) = f x) \<Longrightarrow> insort_key f (g y) (map g zs) = map g (insort_key f y zs)"
  by (induction zs) auto

lemma sort_key_map:
  "(\<And>x. f (g x) = f x) \<Longrightarrow> sort_key f (map g xs) = map g (sort_key f xs)"
  by (induction xs) (auto simp: insort_key_map)

lemma selectOrdered_map:
  "(\<And>x. createdAt (g x) = createdAt x) \<Longrightarrow>
     selectOrdered cond (map g rows) = map g (selectOrdered (\<lambda>c. cond (g c)) rows)"
  by (simp add: selectOrdered_def sort_key_map filter_map comp_def)

lemma distinct_ids_selectOrdered:
  assumes "distinct (map id_c rows)"
  shows "distinct (map id_c (selectOrdered cond rows))"
proof -
  from assms have "distinct rows" and "inj_on id_c (set rows)"
    by (simp_all add: distinct_map)
  then have "distinct (filter cond rows)" and "inj_on id_c (set (filter cond rows))"
    by (auto intro: inj_on_subset)
  then show ?thesis
    by (simp add: selectOrdered_def distinct_map)
qed

lemma findByEmailOrPhone_select:
  "findByEmailOrPhone mail phone db = selectOrdered (whereEmailOrPhone mail phone) (contacts db)"
proof (cases "truthy mail \<or> truthy phone")
  case True
  then show ?thesis by (auto simp: findByEmailOrPhone_def)
next
  case False
  then have "\<forall>c\<in>set (contacts db). \<not> whereEmailOrPhone mail phone c"
    by (simp add: whereEmailOrPhone_def)
  then have "selectOrdered (whereEmailOrPhone mail phone) (contacts db) = []"
    by (simp add: selectOrdered_empty_iff)
  with False show ?thesis by (simp add: findByEmailOrPhone_def)
qed

lemma findByEmailOrPhone_valid:
  "findByEmailOrPhone mail phone db \<noteq> [] \<Longrightarrow> truthy mail \<or> truthy phone"
  by (auto simp: findByEmailOrPhone_def split: if_splits)

lemma whereEmailOrPhone_demoted [simp]:
  "whereEmailOrPhone mail phone (demoted l t c) = whereEmailOrPhone mail phone c"
  by (simp add: whereEmailOrPhone_def)

subsection \<open>The decisions\<close>

lemma strictEq_truthy: "truthy v \<Longrightarrow> strictEq column v \<longleftrightarrow> column = v"
  by (cases v; cases column) (auto simp: strictEq_def truthy_def)

lemma isRequestCoveredByContacts_spec:
  "truthy (req_email request) \<or> truthy (req_phoneNumber request) \<Longrightarrow>
     isRequestCoveredByContacts cs request = coveredPerField cs request"
  by (auto simp: isRequestCoveredByContacts_def coveredPerField_def list_ex_iff strictEq_truthy)

lemma needsNewSecondaryContact_spec:
  "truthy (req_email request) \<or> truthy (req_phoneNumber request) \<Longrightarrow>
     needsNewSecondaryContact cs request = secondaryRequired cs request"
  by (auto simp: needsNewSecondaryContact_def secondaryRequired_def list_ex_iff strictEq_truthy
      Let_def)

subsection \<open>The branches of identifyContact\<close>

lemma create_secondary:
  "snd (create (req_phoneNumber request) (req_email request) (Some primaryId) SECONDARY db) =
     db\<lparr>contacts := contacts db @ [newSecondary request primaryId db],
        contacts_id_seq := Suc (contacts_id_seq db)\<rparr>"
  by (simp add: create_def newSecondary_def Let_def)

lemma matchedPrimaries_select:
  "matchedPrimaries request db =
     selectOrdered (\<lambda>c. whereEmailOrPhone (req_email request) (req_phoneNumber request) c \<and>
                         isPrimary c) (contacts db)"
  by (simp add: findByEmailOrPhone_select filter_selectOrdered)

lemma matched_in_table:
  "c \<in> set (matchedContacts request db) \<Longrightarrow> c \<in> set (contacts db) \<and> deletedAt c = None"
  by (simp add: findByEmailOrPhone_select whereEmailOrPhone_def)

lemma identify_merge:
  assumes "matchedPrimaries request db = survivor # other # others"
  shows "identifyContact request db =
     (let db1 = db\<lparr>contacts := demoteRows (id_c ` set (other # others)) (id_c survivor)
                                          (now db) (contacts db)\<rparr>;
          db2 = (if \<not> isRequestCoveredByContacts (survivor # other # others) request
                 then snd (create (req_phoneNumber request) (req_email request)
                                  (Some (id_c survivor)) SECONDARY db1)
                 else db1)
      in (buildResponse (id_c survivor) db2, db2))"
proof -
  have ne: "matchedContacts request db \<noteq> []"
    using assms by auto
  then have valid: "truthy (req_email request) \<or> truthy (req_phoneNumber request)"
    by (rule findByEmailOrPhone_valid)
  have sorted: "sort_key createdAt (matchedPrimaries request db) = matchedPrimaries request db"
    by (simp only: matchedPrimaries_select sort_selectOrdered)
  have "\<forall>c\<in>set (other # others). c \<in> set (matchedContacts request db)"
  proof
    fix c assume "c \<in> set (other # others)"
    then have "c \<in> set (matchedPrimaries request db)"
      by (simp add: assms)
    then show "c \<in> set (matchedContacts request db)"
      by simp
  qed
  then have "\<forall>c\<in>set (other # others).
      \<exists>r\<in>set (contacts db). id_c r = id_c c \<and> deletedAt r = None"
    using matched_in_table by blast
  from demoteEach_contacts [OF this]
  have loop: "demoteEach (other # others) (id_c survivor) db =
      (None, db\<lparr>contacts := demoteRows (id_c ` set (other # others)) (id_c survivor)
                                         (now db) (contacts db)\<rparr>)" .
  have "identifyContact request db =
      mergePrimaryContacts (matchedPrimaries request db) request db"
    using ne valid by (auto simp: identifyContact_def Let_def assms)
  also have "\<dots> = (let db1 = db\<lparr>contacts := demoteRows (id_c ` set (other # others))
                                       (id_c survivor) (now db) (contacts db)\<rparr>;
          db2 = (if \<not> isRequestCoveredByContacts (survivor # other # others) request
                 then snd (create (req_phoneNumber request) (req_email request)
                                  (Some (id_c survivor)) SECONDARY db1)
                 else db1)
      in (buildResponse (id_c survivor) db2, db2))"
    unfolding mergePrimaryContacts_def sorted
    by (simp only: assms list.case loop prod.case option.case Let_def)
  finally show ?thesis .
qed

lemma identify_direct:
  assumes "truthy (req_email request) \<or> truthy (req_phoneNumber request)"
    and "matchedContacts request db \<noteq> []"
    and "length (matchedPrimaries request db) \<le> 1"
    and "primaryContactOf (matchedPrimaries request db) (matchedContacts request db) db
           = Some anchor"
  shows "identifyContact request db =
     (let db' = (if needsNewSecondaryContact (findLinkedContacts (id_c anchor) db) request
                 then snd (create (req_phoneNumber request) (req_email request)
                                  (Some (id_c anchor)) SECONDARY db)
                 else db)
      in (buildResponse (id_c anchor) db', db'))"
  using assms by (auto simp: identifyContact_def Let_def)

lemma identify_new:
  assumes "truthy (req_email request) \<or> truthy (req_phoneNumber request)"
    and "matchedContacts request db = []"
  shows "identifyContact request db = createNewPrimaryContact request db"
  using assms by (auto simp: identifyContact_def Let_def)

section \<open>When a secondary contact is created\<close>

text \<open>
  C2. In the merge branch the call leaves the table with the matched primaries other than
  the first demoted, followed by one new SECONDARY contact with the request's email and
  phone number, linked to the first matched primary, if the request is not covered field
  by field by the matched primaries as they were fetched, and by nothing otherwise.
\<close>

theorem merge_creates_secondary_iff_not_covered:
  assumes "1 < length (matchedPrimaries request db)"
  shows "contacts (snd (identifyContact request db)) =
           demoteRows (id_c ` set (tl (matchedPrimaries request db)))
                      (id_c (hd (matchedPrimaries request db))) (now db) (contacts db) @
           (if coveredPerField (matchedPrimaries request db) request then []
            else [newSecondary request (id_c (hd (matchedPrimaries request db))) db])"
proof -
  from assms obtain survivor other others
    where ps: "matchedPrimaries request db = survivor # other # others"
    by (cases "matchedPrimaries request db"; cases "tl (matchedPrimaries request db)") auto
  then have "matchedContacts request db \<noteq> []"
    by auto
  then have valid: "truthy (req_email request) \<or> truthy (req_phoneNumber request)"
    by (rule findByEmailOrPhone_valid)
  show ?thesis
    unfolding identify_merge [OF ps] ps
    by (simp add: Let_def isRequestCoveredByContacts_spec [OF valid] create_secondary
        newSecondary_def)
qed

theorem merge_creates_secondary_iff_not_covered_witness:
  "contacts (snd (identifyContact (request_of (Some ''a@x'') (Some ''2'')) familyDb)) =
     [contact_of 1 (Some ''a@x'') (Some ''1'') None PRIMARY 10,
      (contact_of 2 (Some ''b@x'') (Some ''2'') (Some 1) SECONDARY 20)\<lparr>updatedAt := 40\<rparr>,
      contact_of 3 (Some ''c@x'') (Some ''2'') (Some 2) SECONDARY 30] \<and>
   contacts (snd (identifyContact (request_of (Some ''a@x'') (Some ''3'')) twinDb)) =
     [contact_of 1 (Some ''a@x'') (Some ''1'') None PRIMARY 10,
      (contact_of 2 (Some ''a@x'') (Some ''2'') (Some 1) SECONDARY 20)\<lparr>updatedAt := 30\<rparr>,
      contact_of 3 (Some ''a@x'') (Some ''3'') (Some 1) SECONDARY 30]"
proof -
  let ?r1 = "request_of (Some ''a@x'') (Some ''2'')"
  let ?r2 = "request_of (Some ''a@x'') (Some ''3'')"
  have p1: "1 < length (matchedPrimaries ?r1 familyDb)"
    by code_simp
  have p2: "1 < length (matchedPrimaries ?r2 twinDb)"
    by code_simp
  have e1: "demoteRows (id_c ` set (tl (matchedPrimaries ?r1 familyDb)))
                      (id_c (hd (matchedPrimaries ?r1 familyDb))) (now familyDb)
                      (contacts familyDb) @
           (if coveredPerField (matchedPrimaries ?r1 familyDb) ?r1 then []
            else [newSecondary ?r1 (id_c (hd (matchedPrimaries ?r1 familyDb))) familyDb]) =
     [contact_of 1 (Some ''a@x'') (Some ''1'') None PRIMARY 10,
      (contact_of 2 (Some ''b@x'') (Some ''2'') (Some 1) SECONDARY 20)\<lparr>updatedAt := 40\<rparr>,
      contact_of 3 (Some ''c@x'') (Some ''2'') (Some 2) SECONDARY 30]"
    by code_simp
  have e2: "demoteRows (id_c ` set (tl (matchedPrimaries ?r2 twinDb)))
                      (id_c (hd (matchedPrimaries ?r2 twinDb))) (now twinDb)
                      (contacts twinDb) @
           (if coveredPerField (matchedPrimaries ?r2 twinDb) ?r2 then []
            else [newSecondary ?r2 (id_c (hd (matchedPrimaries ?r2 twinDb))) twinDb]) =
     [contact_of 1 (Some ''a@x'') (Some ''1'') None PRIMARY 10,
      (contact_of 2 (Some ''a@x'') (Some ''2'') (Some 1) SECONDARY 20)\<lparr>updatedAt := 30\<rparr>,
      contact_of 3 (Some ''a@x'') (Some ''3'') (Some 1) SECONDARY 30]"
    by code_simp
  from merge_creates_secondary_iff_not_covered [OF p1] e1
    merge_creates_secondary_iff_not_covered [OF p2] e2
  show ?thesis by simp
qed





subsection \<open>The merge branch\<close>

lemma merge_table:
  assumes "1 < length (matchedPrimaries request db)"
  shows "contacts (snd (identifyContact request db)) =
           demoteRows (id_c ` set (tl (matchedPrimaries request db)))
                      (id_c (hd (matchedPrimaries request db))) (now db) (contacts db) @
           (if isRequestCoveredByContacts (matchedPrimaries request db) request then []
            else [newSecondary request (id_c (hd (matchedPrimaries request db))) db])"
proof -
  from assms obtain survivor other others
    where ps: "matchedPrimaries request db = survivor # other # others"
    by (cases "matchedPrimaries request db"; cases "tl (matchedPrimaries request db)") auto
  show ?thesis
    unfolding identify_merge [OF ps] ps
    by (simp add: Let_def create_secondary newSecondary_def)
qed

lemma hd_sort_key_stable:
  assumes "xs \<noteq> []"
  shows "hd (sort_key f xs) = hd (filter (\<lambda>y. f y = f (hd (sort_key f xs))) xs)"
proof -
  have "length (sort_key f xs) = length xs"
    by simp
  with assms obtain z zs where s: "sort_key f xs = z # zs"
    by (cases "sort_key f xs") (simp_all del: length_sort)
  have "filter (\<lambda>y. f y = f z) (sort_key f xs) = filter (\<lambda>y. f y = f z) xs"
    by (rule sort_key_stable)
  then have "filter (\<lambda>y. f y = f z) xs = z # filter (\<lambda>y. f y = f z) zs"
    by (simp add: s)
  then have "hd (filter (\<lambda>y. f y = f z) xs) = z"
    by simp
  then show ?thesis by (simp add: s)
qed

lemma sorted_hd_least:
  "sorted (map f xs) \<Longrightarrow> p \<in> set xs \<Longrightarrow> f (hd xs) \<le> f p"
  by (cases xs) auto

lemma distinct_ids_eq:
  "distinct (map id_c rows) \<Longrightarrow> a \<in> set rows \<Longrightarrow> b \<in> set rows \<Longrightarrow> id_c a = id_c b \<Longrightarrow> a = b"
  by (meson distinct_map inj_onD)

subsection \<open>Case analysis of a call\<close>

lemma identify_cases [case_names invalid new merge stuck direct]:
  obtains
    (invalid) "\<not> truthy (req_email request)" "\<not> truthy (req_phoneNumber request)"
      "identifyContact request db = (Inl EmailOrPhoneRequired, db)"
  | (new) "truthy (req_email request) \<or> truthy (req_phoneNumber request)"
      "matchedContacts request db = []"
      "identifyContact request db = createNewPrimaryContact request db"
  | (merge) survivor other others where
      "matchedPrimaries request db = survivor # other # others"
  | (stuck) "truthy (req_email request) \<or> truthy (req_phoneNumber request)"
      "matchedContacts request db \<noteq> []"
      "length (matchedPrimaries request db) \<le> 1"
      "primaryContactOf (matchedPrimaries request db) (matchedContacts request db) db = None"
      "identifyContact request db = (Inl TypeError, db)"
  | (direct) anchor where
      "truthy (req_email request) \<or> truthy (req_phoneNumber request)"
      "matchedContacts request db \<noteq> []"
      "length (matchedPrimaries request db) \<le> 1"
      "primaryContactOf (matchedPrimaries request db) (matchedContacts request db) db
         = Some anchor"
proof (cases "truthy (req_email request) \<or> truthy (req_phoneNumber request)")
  case False
  then show ?thesis
    using invalid by (simp add: identifyContact_def)
next
  case valid: True
  show ?thesis
  proof (cases "matchedContacts request db = []")
    case True
    with valid new identify_new show ?thesis by blast
  next
    case ne: False
    show ?thesis
    proof (cases "1 < length (matchedPrimaries request db)")
      case True
      then obtain survivor other others
        where "matchedPrimaries request db = survivor # other # others"
        by (cases "matchedPrimaries request db"; cases "tl (matchedPrimaries request db)") auto
      with merge show ?thesis by blast
    next
      case False
      then have le: "length (matchedPrimaries request db) \<le> 1" by simp
      show ?thesis
      proof (cases "primaryContactOf (matchedPrimaries request db)
                      (matchedContacts request db) db")
        case None
        with valid ne False have "identifyContact request db = (Inl TypeError, db)"
          by (auto simp: identifyContact_def Let_def)
        with stuck valid ne le None show ?thesis by blast
      next
        case (Some anchor)
        with direct valid ne le show ?thesis by blast
      qed
    qed
  qed
qed

lemma primaryContactOf_in_table:
  assumes "primaryContactOf (matchedPrimaries request db) (matchedContacts request db) db
             = Some anchor"
  shows "anchor \<in> set (contacts db) \<and> deletedAt anchor = None"
proof (cases "matchedPrimaries request db")
  case (Cons p ps)
  with assms have "anchor = p" by (simp add: primaryContactOf_def)
  with Cons have "anchor \<in> set (matchedPrimaries request db)" by simp
  then have "anchor \<in> set (matchedContacts request db)" by simp
  then show ?thesis by (rule matched_in_table)
next
  case Nil
  with assms obtain c cs l a as where
    "matchedContacts request db = c # cs" "linkedId c = Some l"
    "findLinkedContacts l db = a # as" "anchor = a"
    by (auto simp: primaryContactOf_def split: list.splits option.splits)
  then have "anchor \<in> set (findLinkedContacts l db)" by simp
  then show ?thesis by (simp add: findLinkedContacts_def whereLinked_def)
qed

subsection \<open>Well-formed stores stay well-formed\<close>

lemma wellFormed_now [simp]: "wellFormed (db\<lparr>now := t\<rparr>) = wellFormed db"
  by (simp add: wellFormed_def)

lemma wellFormed_insert:
  assumes "wellFormed db"
    and "id_c n = contacts_id_seq db"
    and "linkPrecedence n = PRIMARY \<longleftrightarrow> linkedId n = None"
    and "\<forall>l. linkedId n = Some l \<longrightarrow> l \<in> id_c ` set (contacts db)"
  shows "wellFormed (db\<lparr>contacts := contacts db @ [n],
                         contacts_id_seq := Suc (contacts_id_seq db)\<rparr>)"
  using assms by (fastforce simp: wellFormed_def less_Suc_eq)

lemma wellFormed_demoteRows:
  assumes "wellFormed db" and "l \<in> id_c ` set (contacts db)"
  shows "wellFormed (db\<lparr>contacts := demoteRows ids l t (contacts db)\<rparr>)"
proof -
  have "map id_c (demoteRows ids l t (contacts db)) = map id_c (contacts db)"
    by simp
  then have "set (map id_c (demoteRows ids l t (contacts db))) = set (map id_c (contacts db))"
    by (rule arg_cong)
  then have img: "id_c ` set (demoteRows ids l t (contacts db)) = id_c ` set (contacts db)"
    by (simp only: set_map)
  have each: "id_c c < contacts_id_seq db \<and>
          (linkPrecedence c = PRIMARY \<longleftrightarrow> linkedId c = None) \<and>
          set_option (linkedId c) \<subseteq> id_c ` set (contacts db)"
    if "c \<in> set (demoteRows ids l t (contacts db))" for c
  proof -
    from that obtain r where r: "r \<in> set (contacts db)"
      "c = (if id_c r \<in> ids \<and> deletedAt r = None then demoted l t r else r)"
      by (auto simp: demoteRows_def)
    with assms show ?thesis
      by (auto simp: wellFormed_def split: if_splits)
  qed
  from assms(1) each show ?thesis
    unfolding wellFormed_def by (simp add: img)
qed

lemma wellFormed_identify:
  assumes "wellFormed db"
  shows "wellFormed (snd (identifyContact request db))"
proof (cases request db rule: identify_cases)
  case invalid
  with assms show ?thesis by simp
next
  case new
  have "wellFormed (snd (createNewPrimaryContact request db))"
    unfolding createNewPrimaryContact_def create_def Let_def
    by (simp add: wellFormed_insert [OF assms])
  with new show ?thesis by simp
next
  case (merge survivor other others)
  let ?db1 = "db\<lparr>contacts := demoteRows (id_c ` set (other # others)) (id_c survivor)
                                        (now db) (contacts db)\<rparr>"
  have "survivor \<in> set (matchedPrimaries request db)"
    by (simp add: merge)
  then have "survivor \<in> set (matchedContacts request db)" by simp
  then have s: "survivor \<in> set (contacts db)"
    using matched_in_table by blast
  then have in_ids: "id_c survivor \<in> id_c ` set (contacts db)" by blast
  have wf1: "wellFormed ?db1"
    by (rule wellFormed_demoteRows [OF assms in_ids])
  have "id_c survivor \<in> set (map id_c (contacts ?db1))"
    using in_ids by simp
  then have in1: "id_c survivor \<in> id_c ` set (contacts ?db1)"
    by (simp only: set_map)
  have wf2: "wellFormed (snd (create (req_phoneNumber request) (req_email request)
                                (Some (id_c survivor)) SECONDARY ?db1))"
    unfolding create_secondary
    by (rule wellFormed_insert [OF wf1]) (use in1 in \<open>simp_all add: newSecondary_def\<close>)
  show ?thesis
    unfolding identify_merge [OF merge] Let_def
    using wf1 wf2 by (simp split: if_splits)
next
  case stuck
  with assms show ?thesis by simp
next
  case (direct anchor)
  from primaryContactOf_in_table [OF direct(4)]
  have in_ids: "id_c anchor \<in> id_c ` set (contacts db)" by blast
  have wf2: "wellFormed (snd (create (req_phoneNumber request) (req_email request)
                                (Some (id_c anchor)) SECONDARY db))"
    unfolding create_secondary
    by (rule wellFormed_insert [OF assms]) (use in_ids in \<open>simp_all add: newSecondary_def\<close>)
  show ?thesis
    unfolding identify_direct [OF direct] Let_def
    using assms wf2 by (simp split: if_splits)
qed

subsection \<open>The consolidated view\<close>

lemma distinct_addTruthy: "distinct s \<Longrightarrow> distinct (addTruthy v s)"
  by (simp add: addTruthy_def split: option.split)

lemma set_addTruthy:
  "set (addTruthy v s) = set s \<union> {x. x \<noteq> [] \<and> v = Some x}"
  by (auto simp: addTruthy_def split: option.split)

lemma addTruthy_prefix: "\<exists>ys. addTruthy v s = s @ ys"
  by (simp add: addTruthy_def split: option.split)

lemma foldl_pair_split:
  "foldl (\<lambda>(es, ps) c. (f c es, g c ps)) (e0, p0) cs =
     (foldl (\<lambda>es c. f c es) e0 cs, foldl (\<lambda>ps c. g c ps) p0 cs)"
  by (induction cs arbitrary: e0 p0) auto

lemma distinct_collect:
  "distinct acc \<Longrightarrow> distinct (foldl (\<lambda>s c. addTruthy (field c) s) acc cs)"
  by (induction cs arbitrary: acc) (auto simp: distinct_addTruthy)

lemma set_collect:
  "set (foldl (\<lambda>s c. addTruthy (field c) s) acc cs) =
     set acc \<union> {x. x \<noteq> [] \<and> (\<exists>c \<in> set cs. field c = Some x)}"
  by (induction cs arbitrary: acc) (auto simp: set_addTruthy)

lemma collect_prefix:
  "\<exists>ys. foldl (\<lambda>s c. addTruthy (field c) s) acc cs = acc @ ys"
proof (induction cs arbitrary: acc)
  case Nil
  then show ?case by simp
next
  case (Cons c cs)
  obtain ys where a: "addTruthy (field c) acc = acc @ ys"
    using addTruthy_prefix by blast
  obtain zs where "foldl (\<lambda>s c. addTruthy (field c) s) (acc @ ys) cs = (acc @ ys) @ zs"
    using Cons.IH by blast
  with a show ?case by simp
qed

text \<open>The swap of \<^verbatim>\<open>buildResponse\<close> never fires: the primary's value is already first.\<close>

lemma primaryFirst_addTruthy:
  "primaryFirst v (foldl (\<lambda>s c. addTruthy (field c) s) (addTruthy v []) cs) =
     foldl (\<lambda>s c. addTruthy (field c) s) (addTruthy v []) cs"
proof (cases "truthy v")
  case False
  then show ?thesis
    by (auto simp: primaryFirst_def truthy_def split: option.split)
next
  case True
  then obtain x where v: "v = Some x" "x \<noteq> []"
    by (auto simp: truthy_def split: option.splits)
  then have "addTruthy v [] = [x]"
    by (simp add: addTruthy_def)
  with collect_prefix [of field "addTruthy v []" cs]
  obtain ys where "foldl (\<lambda>s c. addTruthy (field c) s) (addTruthy v []) cs = x # ys"
    by auto
  with v show ?thesis
    by (simp add: primaryFirst_def)
qed

lemma buildResponse_view:
  assumes "find isPrimary (findLinkedContacts root db) = Some primary"
  shows "buildResponse root db =
     Inr \<lparr>primaryContactId = id_c primary,
          emails = foldl (\<lambda>s c. addTruthy (email c) s) (addTruthy (email primary) [])
                         (filter isSecondary (findLinkedContacts root db)),
          phoneNumbers = foldl (\<lambda>s c. addTruthy (phoneNumber c) s)
                               (addTruthy (phoneNumber primary) [])
                               (filter isSecondary (findLinkedContacts root db)),
          secondaryContactIds = map id_c (filter isSecondary (findLinkedContacts root db))\<rparr>"
  by (simp add: buildResponse_def assms Let_def foldl_pair_split primaryFirst_addTruthy)

lemma buildResponse_Inr_D:
  assumes "buildResponse root db = Inr v"
  obtains primary where "find isPrimary (findLinkedContacts root db) = Some primary"
proof (cases "find isPrimary (findLinkedContacts root db)")
  case None
  from buildResponse_no_primary [OF this] assms show ?thesis by simp
next
  case (Some a)
  with that show ?thesis by blast
qed

text \<open>In a well-formed store the contacts linked to a root hold at most the root as PRIMARY.\<close>

lemma linked_primary_is_root:
  assumes "wellFormed db" and "c \<in> set (findLinkedContacts root db)" and "isPrimary c"
  shows "id_c c = root"
  using assms
  by (fastforce simp: wellFormed_def findLinkedContacts_def whereLinked_def isPrimary_def)

lemma linked_primary_unique:
  assumes "wellFormed db"
    and "c \<in> set (findLinkedContacts root db)" and "isPrimary c"
    and "d \<in> set (findLinkedContacts root db)" and "isPrimary d"
  shows "c = d"
proof -
  have "id_c c = id_c d"
    using linked_primary_is_root [OF assms(1)] assms by metis
  moreover have "c \<in> set (contacts db)" "d \<in> set (contacts db)"
    using assms by (simp_all add: findLinkedContacts_def)
  moreover have "distinct (map id_c (contacts db))"
    using assms(1) by (simp add: wellFormed_def)
  ultimately show ?thesis
    using distinct_ids_eq by blast
qed

lemma isSecondary_iff: "isSecondary c \<longleftrightarrow> \<not> isPrimary c"
  by (cases "linkPrecedence c") (simp_all add: isSecondary_def isPrimary_def)

lemma wellFormed_linkedId:
  "wellFormed db \<Longrightarrow> c \<in> set (contacts db) \<Longrightarrow> linkedId c = Some l \<Longrightarrow>
     \<exists>r \<in> set (contacts db). id_c r = l"
  by (fastforce simp: wellFormed_def)

lemma wellFormed_fresh:
  assumes "wellFormed db"
  shows "filter (whereLinked (contacts_id_seq db)) (contacts db) = []"
proof -
  have "\<not> whereLinked (contacts_id_seq db) c" if c: "c \<in> set (contacts db)" for c
  proof -
    from assms c have a: "id_c c < contacts_id_seq db"
      by (simp add: wellFormed_def)
    have "linkedId c \<noteq> Some (contacts_id_seq db)"
    proof
      assume "linkedId c = Some (contacts_id_seq db)"
      from wellFormed_linkedId [OF assms c this]
      obtain r where "r \<in> set (contacts db)" "id_c r = contacts_id_seq db" by blast
      with assms show False by (fastforce simp: wellFormed_def)
    qed
    with a show ?thesis by (simp add: whereLinked_def)
  qed
  then show ?thesis by (simp add: filter_empty_conv)
qed

lemma buildResponse_root:
  assumes "wellFormed db" and "buildResponse root db = Inr v"
  shows "primaryContactId v = root"
proof -
  from assms(2) obtain primary
    where f: "find isPrimary (findLinkedContacts root db) = Some primary"
    by (rule buildResponse_Inr_D)
  from find_Some_D [OF f] linked_primary_is_root [OF assms(1)]
  have "id_c primary = root" by blast
  with buildResponse_view [OF f] assms(2) show ?thesis by auto
qed

lemma createNewPrimaryContact_view:
  assumes "wellFormed db" and "createNewPrimaryContact request db = (res, db')"
  shows "buildResponse (contacts_id_seq db) db' = res"
proof -
  let ?n = "\<lparr>id_c = contacts_id_seq db, phoneNumber = req_phoneNumber request,
             email = req_email request, linkedId = None, linkPrecedence = PRIMARY,
             createdAt = now db, updatedAt = now db, deletedAt = None\<rparr>"
  from assms(2) have db': "db' = db\<lparr>contacts := contacts db @ [?n],
                                     contacts_id_seq := Suc (contacts_id_seq db)\<rparr>"
    and res: "res = Inr \<lparr>primaryContactId = contacts_id_seq db,
                          emails = addTruthy (req_email request) [],
                          phoneNumbers = addTruthy (req_phoneNumber request) [],
                          secondaryContactIds = []\<rparr>"
    by (auto simp: createNewPrimaryContact_def create_def Let_def)
  have linked: "findLinkedContacts (contacts_id_seq db) db' = [?n]"
    by (simp add: findLinkedContacts_def selectOrdered_def db' wellFormed_fresh [OF assms(1)]
        whereLinked_def)
  have "find isPrimary (findLinkedContacts (contacts_id_seq db) db') = Some ?n"
    by (simp add: linked isPrimary_def)
  from buildResponse_view [OF this] show ?thesis
    by (simp add: res linked isSecondary_def)
qed

lemma identify_view:
  assumes "wellFormed db" and "identifyContact request db = (Inr v, db')"
  shows "buildResponse (primaryContactId v) db' = Inr v"
proof -
  have wf': "wellFormed db'"
    using wellFormed_identify [OF assms(1), of request] assms(2) by simp
  show ?thesis
  proof (cases request db rule: identify_cases)
    case invalid
    with assms(2) show ?thesis by simp
  next
    case new
    with assms(2) have c: "createNewPrimaryContact request db = (Inr v, db')" by simp
    from createNewPrimaryContact_view [OF assms(1) c]
    have b: "buildResponse (contacts_id_seq db) db' = Inr v" .
    from buildResponse_root [OF wf' b] b show ?thesis by simp
  next
    case (merge survivor other others)
    from assms(2) have b: "buildResponse (id_c survivor) db' = Inr v"
      unfolding identify_merge [OF merge] Let_def by (auto split: if_splits)
    from buildResponse_root [OF wf' b] b show ?thesis by simp
  next
    case stuck
    with assms(2) show ?thesis by simp
  next
    case (direct anchor)
    from assms(2) have b: "buildResponse (id_c anchor) db' = Inr v"
      unfolding identify_direct [OF direct] Let_def by (auto split: if_splits)
    from buildResponse_root [OF wf' b] b show ?thesis by simp
  qed
qed

lemma buildResponse_fields:
  assumes "find isPrimary (findLinkedContacts root db) = Some primary"
    and "buildResponse root db = Inr v"
  shows "emails v = foldl (\<lambda>s c. addTruthy (email c) s) (addTruthy (email primary) [])
                          (filter isSecondary (findLinkedContacts root db))"
    and "phoneNumbers v = foldl (\<lambda>s c. addTruthy (phoneNumber c) s)
                                (addTruthy (phoneNumber primary) [])
                                (filter isSecondary (findLinkedContacts root db))"
    and "secondaryContactIds v = map id_c (filter isSecondary (findLinkedContacts root db))"
    and "primaryContactId v = id_c primary"
  using buildResponse_view [OF assms(1)] assms(2) by auto

lemma distinct_set_singleton: "distinct xs \<Longrightarrow> set xs = {a} \<Longrightarrow> xs = [a]"
  by (cases xs; cases "tl xs") auto

lemma distinct_findLinkedContacts:
  "wellFormed db \<Longrightarrow> distinct (findLinkedContacts root db)"
  using distinct_ids_selectOrdered [of "contacts db" "whereLinked root"]
  by (simp add: wellFormed_def findLinkedContacts_def distinct_map)

section \<open>Which primary survives a merge\<close>

text \<open>
  C1, as the code has it. The matched primaries come back in ascending \<open>createdAt\<close>, and
  the first of them survives: no matched primary has a smaller \<open>createdAt\<close>, and among the
  matched primaries of that same \<open>createdAt\<close> it is the first in the order of the table
  (not the one of lowest id). When no other matched primary shares its \<open>createdAt\<close>, it is
  the least under (\<open>createdAt\<close>, id). Every demotion of the loop succeeds; after the call
  the survivor's row is in the table as it was, still PRIMARY, and every other matched
  primary is SECONDARY with \<open>linkedId\<close> the survivor's id, the loop having taken them in
  ascending \<open>createdAt\<close>. In a well-formed store a view that the call returns has the
  survivor's id as its primary id.
\<close>

theorem merge_keeps_first_matched_primary:
  assumes "distinct (map id_c (contacts db))"
    and "1 < length (matchedPrimaries request db)"
  shows "sorted (map createdAt (matchedPrimaries request db)) \<and>
    (\<forall>p \<in> set (matchedPrimaries request db).
        createdAt (hd (matchedPrimaries request db)) \<le> createdAt p) \<and>
    hd (matchedPrimaries request db) =
      hd (filter (\<lambda>c. (whereEmailOrPhone (req_email request) (req_phoneNumber request) c \<and>
                        isPrimary c) \<and>
                       createdAt c = createdAt (hd (matchedPrimaries request db)))
                 (contacts db)) \<and>
    ((\<forall>p \<in> set (tl (matchedPrimaries request db)).
         createdAt p \<noteq> createdAt (hd (matchedPrimaries request db))) \<longrightarrow>
       leastByCreatedAtThenId (matchedPrimaries request db)
                              (hd (matchedPrimaries request db))) \<and>
    fst (demoteEach (tl (matchedPrimaries request db))
                    (id_c (hd (matchedPrimaries request db))) db) = None \<and>
    hd (matchedPrimaries request db) \<in> set (contacts (snd (identifyContact request db))) \<and>
    isPrimary (hd (matchedPrimaries request db)) \<and>
    (\<forall>p \<in> set (tl (matchedPrimaries request db)).
        demoted (id_c (hd (matchedPrimaries request db))) (now db) p
          \<in> set (contacts (snd (identifyContact request db)))) \<and>
    (\<forall>c \<in> set (contacts (snd (identifyContact request db))).
        id_c c \<in> id_c ` set (tl (matchedPrimaries request db)) \<longrightarrow>
        linkPrecedence c = SECONDARY \<and>
        linkedId c = Some (id_c (hd (matchedPrimaries request db)))) \<and>
    (wellFormed db \<longrightarrow>
       (\<forall>v. fst (identifyContact request db) = Inr v \<longrightarrow>
            primaryContactId v = id_c (hd (matchedPrimaries request db))))"
proof -
  let ?ps = "matchedPrimaries request db"
  let ?cond = "\<lambda>c. whereEmailOrPhone (req_email request) (req_phoneNumber request) c \<and>
                    isPrimary c"
  from assms(2) obtain s ts where ps: "?ps = s # ts"
    by (cases ?ps) auto
  have sel: "?ps = selectOrdered ?cond (contacts db)"
    by (rule matchedPrimaries_select)
  have srt: "sorted (map createdAt ?ps)"
    unfolding sel by (rule sorted_selectOrdered)
  have least: "\<forall>p \<in> set ?ps. createdAt (hd ?ps) \<le> createdAt p"
    using sorted_hd_least [OF srt] by blast
  have ne: "filter ?cond (contacts db) \<noteq> []"
  proof
    assume "filter ?cond (contacts db) = []"
    then have "selectOrdered ?cond (contacts db) = []"
      by (simp add: selectOrdered_def)
    with sel ps show False by simp
  qed
  have first: "hd ?ps = hd (filter (\<lambda>c. ?cond c \<and> createdAt c = createdAt (hd ?ps)) (contacts db))"
    using hd_sort_key_stable [OF ne, of createdAt]
    by (simp add: sel selectOrdered_def conj_commute)
  have in_tab: "p \<in> set (contacts db) \<and> deletedAt p = None \<and> isPrimary p" if "p \<in> set ?ps" for p
    using that by (simp add: sel whereEmailOrPhone_def)
  have dist: "distinct (map id_c ?ps)"
    unfolding sel by (rule distinct_ids_selectOrdered [OF assms(1)])
  then have s_not: "id_c s \<notin> id_c ` set ts"
    by (simp add: ps)
  have uniq: "leastByCreatedAtThenId ?ps (hd ?ps)"
    if "\<forall>p \<in> set (tl ?ps). createdAt p \<noteq> createdAt (hd ?ps)"
    using that least by (fastforce simp: ps leastByCreatedAtThenId_def olderThan_def)
  have "\<forall>c\<in>set ts. \<exists>r\<in>set (contacts db). id_c r = id_c c \<and> deletedAt r = None"
    using in_tab by (auto simp: ps)
  from demoteEach_contacts [OF this]
  have loop: "fst (demoteEach (tl ?ps) (id_c (hd ?ps)) db) = None"
    by (simp add: ps)
  note tab = merge_table [OF assms(2)]
  have keep: "hd ?ps \<in> set (contacts (snd (identifyContact request db)))"
    using in_tab [of s] s_not by (simp add: tab ps demoteRows_keeps)
  have dem: "demoted (id_c (hd ?ps)) (now db) p \<in> set (contacts (snd (identifyContact request db)))"
    if "p \<in> set (tl ?ps)" for p
  proof -
    from that have "p \<in> set ?ps" by (simp add: ps)
    from in_tab [OF this] that show ?thesis
      by (auto simp: tab demoteRows_def image_iff)
  qed
  have sec: "linkPrecedence c = SECONDARY \<and> linkedId c = Some (id_c (hd ?ps))"
    if c: "c \<in> set (contacts (snd (identifyContact request db)))"
      and i: "id_c c \<in> id_c ` set (tl ?ps)" for c
  proof -
    from i obtain p where p: "p \<in> set ts" "id_c c = id_c p"
      by (auto simp: ps)
    then have pt: "p \<in> set (contacts db)" "deletedAt p = None"
      using in_tab [of p] by (simp_all add: ps)
    from c consider
      (old) r where "r \<in> set (contacts db)"
        "c = (if id_c r \<in> id_c ` set ts \<and> deletedAt r = None
              then demoted (id_c s) (now db) r else r)"
      | (new) "c = newSecondary request (id_c s) db"
      by (auto simp: tab ps demoteRows_def split: if_splits)
    then show ?thesis
    proof cases
      case old
      have "id_c r = id_c p"
        using old(2) p(2) by (simp split: if_splits)
      from distinct_ids_eq [OF assms(1) old(1) pt(1) this] have "r = p" .
      with old(2) p(1) pt(2) show ?thesis
        by (simp add: ps)
    next
      case new
      then show ?thesis by (simp add: newSecondary_def ps)
    qed
  qed
  have root: "primaryContactId v = id_c (hd ?ps)"
    if wf: "wellFormed db" and v: "fst (identifyContact request db) = Inr v" for v
  proof -
    from assms(2) ps obtain other others where ps3: "?ps = s # other # others"
      by (cases ts) auto
    have "wellFormed (snd (identifyContact request db))"
      by (rule wellFormed_identify [OF wf])
    moreover from v have "buildResponse (id_c s) (snd (identifyContact request db)) = Inr v"
      unfolding identify_merge [OF ps3] Let_def by (simp split: if_splits)
    ultimately show ?thesis
      using buildResponse_root by (simp add: ps)
  qed
  from srt least first uniq loop keep in_tab [of s] dem sec root show ?thesis
    by (simp add: ps)
qed

theorem merge_keeps_first_matched_primary_witness:
  "hd (matchedPrimaries (request_of (Some ''a@x'') (Some ''2'')) familyDb) =
     contact_of 1 (Some ''a@x'') (Some ''1'') None PRIMARY 10 \<and>
   leastByCreatedAtThenId (matchedPrimaries (request_of (Some ''a@x'') (Some ''2'')) familyDb)
     (contact_of 1 (Some ''a@x'') (Some ''1'') None PRIMARY 10) \<and>
   contact_of 1 (Some ''a@x'') (Some ''1'') None PRIMARY 10
     \<in> set (contacts (snd (identifyContact (request_of (Some ''a@x'') (Some ''2'')) familyDb))) \<and>
   demoted 1 40 (contact_of 2 (Some ''b@x'') (Some ''2'') None PRIMARY 20)
     \<in> set (contacts (snd (identifyContact (request_of (Some ''a@x'') (Some ''2'')) familyDb)))"
proof -
  let ?r = "request_of (Some ''a@x'') (Some ''2'')"
  let ?ps = "matchedPrimaries ?r familyDb"
  let ?after = "contacts (snd (identifyContact ?r familyDb))"
  have d: "distinct (map id_c (contacts familyDb))"
    by code_simp
  have p: "1 < length ?ps"
    by code_simp
  note inst = merge_keeps_first_matched_primary [OF d p]
  from inst have
    a: "(\<forall>p \<in> set (tl ?ps). createdAt p \<noteq> createdAt (hd ?ps)) \<longrightarrow>
          leastByCreatedAtThenId ?ps (hd ?ps)"
    and b: "hd ?ps \<in> set ?after"
    and c: "\<forall>p \<in> set (tl ?ps). demoted (id_c (hd ?ps)) (now familyDb) p \<in> set ?after"
    by blast+
  have t: "\<forall>p \<in> set (tl ?ps). createdAt p \<noteq> createdAt (hd ?ps)"
    by code_simp
  have h: "hd ?ps = contact_of 1 (Some ''a@x'') (Some ''1'') None PRIMARY 10"
    by code_simp
  have m: "contact_of 2 (Some ''b@x'') (Some ''2'') None PRIMARY 20 \<in> set (tl ?ps)"
    by code_simp
  have i: "id_c (contact_of 1 (Some ''a@x'') (Some ''1'') None PRIMARY 10) = 1"
    and n: "now familyDb = 40"
    by (simp_all add: contact_of_def familyDb_def)
  from a t have "leastByCreatedAtThenId ?ps (hd ?ps)" by blast
  moreover from c m have "demoted (id_c (hd ?ps)) (now familyDb)
      (contact_of 2 (Some ''b@x'') (Some ''2'') None PRIMARY 20) \<in> set ?after"
    by blast
  ultimately show ?thesis
    using b h i n by simp
qed

text \<open>
  C1 as stated fails when two matched primaries share their \<open>createdAt\<close>: in \<open>tieDb\<close> the
  contact of id 1 is the least under (\<open>createdAt\<close>, id), yet the call keeps the contact of
  id 2 as the primary and demotes the contact of id 1. With the same two rows returned in
  the other order the contact of id 1 is kept: the order of the rows decides, not the id.
\<close>

theorem lower_id_demoted_on_tie_counterexample:
  "1 < length (matchedPrimaries (request_of (Some ''a@x'') (Some ''2'')) tieDb) \<and>
   leastByCreatedAtThenId (matchedPrimaries (request_of (Some ''a@x'') (Some ''2'')) tieDb)
     (contact_of 1 (Some ''a@x'') (Some ''1'') None PRIMARY 10) \<and>
   identifyContact (request_of (Some ''a@x'') (Some ''2'')) tieDb =
     (Inr \<lparr>primaryContactId = 2, emails = [''b@x'', ''a@x''], phoneNumbers = [''2'', ''1''],
           secondaryContactIds = [1]\<rparr>,
      \<lparr>contacts = [contact_of 2 (Some ''b@x'') (Some ''2'') None PRIMARY 10,
                   (contact_of 1 (Some ''a@x'') (Some ''1'') (Some 2) SECONDARY 10)
                     \<lparr>updatedAt := 20\<rparr>],
       contacts_id_seq = 3, now = 20\<rparr>) \<and>
   fst (identifyContact (request_of (Some ''a@x'') (Some ''2''))
          (tieDb\<lparr>contacts := rev (contacts tieDb)\<rparr>)) =
     Inr \<lparr>primaryContactId = 1, emails = [''a@x'', ''b@x''], phoneNumbers = [''1'', ''2''],
          secondaryContactIds = [2]\<rparr>"
  by code_simp

section \<open>The consolidated view\<close>

text \<open>
  C4, as the code has it. For a well-formed store and a call that returns a view: the
  arrays \<open>emails\<close> and \<open>phoneNumbers\<close> hold no value twice; each holds exactly the non-empty
  values of its field among the contacts linked to the view's primary id, in the store
  the call leaves; those contacts hold one PRIMARY, whose id is the view's primary id,
  and its email and phone number, when non-empty, stand at index 0; and
  \<open>secondaryContactIds\<close> lists the ids of the SECONDARY ones in the order the query
  returns them, which is ascending in \<open>createdAt\<close>.
\<close>

theorem view_consolidates_linked_contacts:
  assumes "wellFormed db" and "identifyContact request db = (Inr v, db')"
  shows "distinct (emails v) \<and> distinct (phoneNumbers v) \<and>
    set (emails v) =
      {x. x \<noteq> [] \<and> (\<exists>c \<in> set (findLinkedContacts (primaryContactId v) db').
                          email c = Some x)} \<and>
    set (phoneNumbers v) =
      {x. x \<noteq> [] \<and> (\<exists>c \<in> set (findLinkedContacts (primaryContactId v) db').
                          phoneNumber c = Some x)} \<and>
    (\<exists>primary. filter isPrimary (findLinkedContacts (primaryContactId v) db') = [primary] \<and>
        id_c primary = primaryContactId v \<and>
        (truthy (email primary) \<longrightarrow>
           emails v \<noteq> [] \<and> email primary = Some (emails v ! 0)) \<and>
        (truthy (phoneNumber primary) \<longrightarrow>
           phoneNumbers v \<noteq> [] \<and> phoneNumber primary = Some (phoneNumbers v ! 0))) \<and>
    secondaryContactIds v =
      map id_c (filter isSecondary (findLinkedContacts (primaryContactId v) db')) \<and>
    sorted (map createdAt
              (filter isSecondary (findLinkedContacts (primaryContactId v) db')))"
proof -
  let ?cluster = "findLinkedContacts (primaryContactId v) db'"
  let ?secs = "filter isSecondary ?cluster"
  have wf': "wellFormed db'"
    using wellFormed_identify [OF assms(1), of request] assms(2) by simp
  have b: "buildResponse (primaryContactId v) db' = Inr v"
    by (rule identify_view [OF assms])
  then obtain primary where f: "find isPrimary ?cluster = Some primary"
    by (rule buildResponse_Inr_D)
  from find_Some_D [OF f] have p: "primary \<in> set ?cluster" "isPrimary primary"
    by simp_all
  note e = buildResponse_fields(1) [OF f b]
    and ph = buildResponse_fields(2) [OF f b]
    and ids = buildResponse_fields(3) [OF f b]
  have members: "c = primary" if "c \<in> set ?cluster" "\<not> isSecondary c" for c
    using that p linked_primary_unique [OF wf', of c "primaryContactId v" primary]
    by (simp add: isSecondary_iff)
  have d1: "distinct (emails v)" and d2: "distinct (phoneNumbers v)"
    by (simp_all add: e ph distinct_collect distinct_addTruthy)
  have s1: "set (emails v) = {x. x \<noteq> [] \<and> (\<exists>c \<in> set ?cluster. email c = Some x)}"
    unfolding e set_collect set_addTruthy using members p(1) by auto
  have s2: "set (phoneNumbers v) =
      {x. x \<noteq> [] \<and> (\<exists>c \<in> set ?cluster. phoneNumber c = Some x)}"
    unfolding ph set_collect set_addTruthy using members p(1) by auto
  have "c \<in> set (filter isPrimary ?cluster) \<longleftrightarrow> c \<in> {primary}" for c
    using p members [of c] by (auto simp: isSecondary_iff)
  then have "set (filter isPrimary ?cluster) = {primary}"
    by blast
  moreover have "distinct (filter isPrimary ?cluster)"
    using distinct_findLinkedContacts [OF wf'] by simp
  ultimately have one: "filter isPrimary ?cluster = [primary]"
    by (rule distinct_set_singleton [rotated])
  have root: "id_c primary = primaryContactId v"
    using linked_primary_is_root [OF wf' p] .
  have first: "xs \<noteq> [] \<and> w = Some (xs ! 0)"
    if "truthy w" "xs = foldl (\<lambda>s c. addTruthy (field c) s) (addTruthy w []) ?secs"
    for w xs and field :: "Contact \<Rightarrow> string option"
  proof -
    from that(1) obtain x where w: "w = Some x" "x \<noteq> []"
      by (auto simp: truthy_def split: option.splits)
    then have "addTruthy w [] = [x]" by (simp add: addTruthy_def)
    with collect_prefix [of field "addTruthy w []" ?secs] that(2)
    obtain ys where "xs = x # ys" by auto
    with w show ?thesis by simp
  qed
  have srt: "sorted (map createdAt ?secs)"
    by (simp add: findLinkedContacts_def filter_selectOrdered sorted_selectOrdered)
  have prim: "\<exists>primary. filter isPrimary ?cluster = [primary] \<and>
        id_c primary = primaryContactId v \<and>
        (truthy (email primary) \<longrightarrow>
           emails v \<noteq> [] \<and> email primary = Some (emails v ! 0)) \<and>
        (truthy (phoneNumber primary) \<longrightarrow>
           phoneNumbers v \<noteq> [] \<and> phoneNumber primary = Some (phoneNumbers v ! 0))"
    using one root first [OF _ e] first [OF _ ph] by (intro exI [of _ primary]) simp
  show ?thesis
    by (intro conjI d1 d2 s1 s2 prim ids srt)
qed

theorem view_consolidates_linked_contacts_witness:
  "wellFormed familyDb \<and>
   identifyContact (request_of (Some ''a@x'') (Some ''2'')) familyDb =
     (Inr \<lparr>primaryContactId = 1, emails = [''a@x'', ''b@x''], phoneNumbers = [''1'', ''2''],
           secondaryContactIds = [2]\<rparr>, mergedDb) \<and>
   set [''a@x'', ''b@x''] =
     {x. x \<noteq> [] \<and> (\<exists>c \<in> set (findLinkedContacts 1 mergedDb). email c = Some x)} \<and>
   [2] = map id_c (filter isSecondary (findLinkedContacts 1 mergedDb)) \<and>
   sorted (map createdAt (filter isSecondary (findLinkedContacts 1 mergedDb)))"
proof -
  have wf: "wellFormed familyDb"
    by code_simp
  from view_consolidates_linked_contacts [OF wf mergedDb_reached] wf mergedDb_reached
  show ?thesis by simp
qed

text \<open>
  C4 as stated fails on \<open>twoSecondariesDb\<close>: the contact of id 3 is linked to the primary
  and its email is the empty string, which is not null, yet \<open>emails\<close> does not hold it;
  and the contact of id 2 is older than the contact of id 3 under (\<open>createdAt\<close>, id), yet
  \<open>secondaryContactIds\<close> lists 3 before 2. An empty email is a value the service itself
  stores: the request with the empty email and the phone number 3 passes the validation
  and, on the empty table, is inserted as it is.
\<close>

theorem view_skips_empty_and_ignores_id_counterexample:
  "wellFormed twoSecondariesDb \<and>
   identifyContact (request_of (Some ''a@x'') (Some ''1'')) twoSecondariesDb =
     (Inr \<lparr>primaryContactId = 1, emails = [''a@x'', ''b@x''],
           phoneNumbers = [''1'', ''3'', ''2''], secondaryContactIds = [3, 2]\<rparr>,
      twoSecondariesDb) \<and>
   findLinkedContacts 1 twoSecondariesDb =
     [contact_of 1 (Some ''a@x'') (Some ''1'') None PRIMARY 10,
      contact_of 3 (Some '''') (Some ''3'') (Some 1) SECONDARY 20,
      contact_of 2 (Some ''b@x'') (Some ''2'') (Some 1) SECONDARY 20] \<and>
   email (contact_of 3 (Some '''') (Some ''3'') (Some 1) SECONDARY 20) = Some '''' \<and>
   '''' \<notin> set [''a@x'', ''b@x''] \<and>
   olderThan (contact_of 2 (Some ''b@x'') (Some ''2'') (Some 1) SECONDARY 20)
             (contact_of 3 (Some '''') (Some ''3'') (Some 1) SECONDARY 20) \<and>
   identifyContact (request_of (Some '''') (Some ''3'')) emptyDb =
     (Inr \<lparr>primaryContactId = 1, emails = [], phoneNumbers = [''3''],
           secondaryContactIds = []\<rparr>,
      \<lparr>contacts = [contact_of 1 (Some '''') (Some ''3'') None PRIMARY 10],
       contacts_id_seq = 2, now = 10\<rparr>)"
  by code_simp

subsection \<open>Clusters under a new link\<close>

lemma cluster_sym: "(a, b) \<in> (E \<union> E\<inverse>)\<^sup>* \<Longrightarrow> (b, a) \<in> (E \<union> E\<inverse>)\<^sup>*"
  by (meson sym_Un_converse sym_rtrancl symD)

lemma cluster_mono: "E \<subseteq> F \<Longrightarrow> (x, y) \<in> (E \<union> E\<inverse>)\<^sup>* \<Longrightarrow> (x, y) \<in> (F \<union> F\<inverse>)\<^sup>*"
proof -
  assume "E \<subseteq> F"
  then have "E \<union> E\<inverse> \<subseteq> F \<union> F\<inverse>" by blast
  from rtrancl_mono [OF this] show "(x, y) \<in> (E \<union> E\<inverse>)\<^sup>* \<Longrightarrow> (x, y) \<in> (F \<union> F\<inverse>)\<^sup>*"
    by blast
qed

lemma cluster_isolated:
  assumes "n \<notin> Domain E" and "n \<notin> Range E" and "(n, x) \<in> (E \<union> E\<inverse>)\<^sup>*"
  shows "x = n"
  using assms(3)
proof (cases rule: converse_rtranclE)
  case base
  then show ?thesis by simp
next
  case (step y)
  with assms(1,2) show ?thesis by auto
qed

lemma cluster_insert:
  assumes "(x, y) \<in> (insert (a, b) E \<union> (insert (a, b) E)\<inverse>)\<^sup>*"
  shows "(x, y) \<in> (E \<union> E\<inverse>)\<^sup>* \<or>
         ((x, a) \<in> (E \<union> E\<inverse>)\<^sup>* \<and> (b, y) \<in> (E \<union> E\<inverse>)\<^sup>*) \<or>
         ((x, b) \<in> (E \<union> E\<inverse>)\<^sup>* \<and> (a, y) \<in> (E \<union> E\<inverse>)\<^sup>*)"
  using assms
proof (induction rule: rtrancl_induct)
  case base
  then show ?case by simp
next
  case (step y z)
  let ?R = "(E \<union> E\<inverse>)\<^sup>*"
  from step.hyps(2) consider (old) "(y, z) \<in> E \<union> E\<inverse>" | (fwd) "y = a" "z = b" | (bwd) "y = b" "z = a"
    by auto
  then show ?case
  proof cases
    case old
    then have "(y, z) \<in> ?R" by (rule r_into_rtrancl)
    with step.IH show ?thesis
      by (meson rtrancl_trans)
  next
    case fwd
    with step.IH show ?thesis by auto
  next
    case bwd
    with step.IH show ?thesis by auto
  qed
qed

lemma cluster_insert_edge: "(a, b) \<in> (insert (a, b) E \<union> (insert (a, b) E)\<inverse>)\<^sup>*"
  by (rule r_into_rtrancl) simp

lemma one_primary_add_root:
  assumes inv: "\<forall>v \<in> V. \<exists>!p. p \<in> P \<and> (v, p) \<in> (E \<union> E\<inverse>)\<^sup>*"
    and fresh: "n \<notin> V" "n \<notin> Domain E" "n \<notin> Range E"
    and sub: "P \<subseteq> V"
  shows "\<forall>v \<in> insert n V. \<exists>!p. p \<in> insert n P \<and> (v, p) \<in> (E \<union> E\<inverse>)\<^sup>*"
proof
  fix v assume v: "v \<in> insert n V"
  show "\<exists>!p. p \<in> insert n P \<and> (v, p) \<in> (E \<union> E\<inverse>)\<^sup>*"
  proof (cases "v = n")
    case True
    have "p = n" if "(n, p) \<in> (E \<union> E\<inverse>)\<^sup>*" for p
      using cluster_isolated [OF fresh(2,3) that] .
    with True show ?thesis by auto
  next
    case False
    with v have vV: "v \<in> V" by simp
    have not_n: "(v, n) \<notin> (E \<union> E\<inverse>)\<^sup>*"
    proof
      assume "(v, n) \<in> (E \<union> E\<inverse>)\<^sup>*"
      then have "(n, v) \<in> (E \<union> E\<inverse>)\<^sup>*" by (rule cluster_sym)
      from cluster_isolated [OF fresh(2,3) this] False show False by simp
    qed
    from inv vV obtain q where q: "q \<in> P" "(v, q) \<in> (E \<union> E\<inverse>)\<^sup>*"
      and uq: "\<And>p. p \<in> P \<Longrightarrow> (v, p) \<in> (E \<union> E\<inverse>)\<^sup>* \<Longrightarrow> p = q"
      by blast
    show ?thesis
    proof (rule ex1I [of _ q])
      show "q \<in> insert n P \<and> (v, q) \<in> (E \<union> E\<inverse>)\<^sup>*" using q by simp
    next
      fix p assume "p \<in> insert n P \<and> (v, p) \<in> (E \<union> E\<inverse>)\<^sup>*"
      with not_n uq show "p = q" by auto
    qed
  qed
qed

lemma one_primary_add_leaf:
  assumes inv: "\<forall>v \<in> V. \<exists>!p. p \<in> P \<and> (v, p) \<in> (E \<union> E\<inverse>)\<^sup>*"
    and fresh: "n \<notin> V" "n \<notin> Domain E" "n \<notin> Range E"
    and sub: "P \<subseteq> V" and a: "a \<in> V"
  shows "\<forall>v \<in> insert n V.
           \<exists>!p. p \<in> P \<and> (v, p) \<in> (insert (n, a) E \<union> (insert (n, a) E)\<inverse>)\<^sup>*"
proof
  let ?R = "(E \<union> E\<inverse>)\<^sup>*"
  let ?R' = "(insert (n, a) E \<union> (insert (n, a) E)\<inverse>)\<^sup>*"
  have up: "(x, y) \<in> ?R'" if "(x, y) \<in> ?R" for x y
    using cluster_mono [OF _ that, of "insert (n, a) E"] by blast
  have from_n: "x = n" if "(n, x) \<in> ?R" for x
    using cluster_isolated [OF fresh(2,3) that] .
  have to_n: "x = n" if "(x, n) \<in> ?R" for x
    using from_n [OF cluster_sym [OF that]] .
  have an: "a \<noteq> n" using a fresh(1) by blast
  have old: "(v, p) \<in> ?R' \<longleftrightarrow> (v, p) \<in> ?R" if "v \<noteq> n" "p \<noteq> n" for v p
    using cluster_insert [of v p n a E] up [of v p] that from_n [of p] to_n [of v] by blast
  have new: "(n, p) \<in> ?R' \<longleftrightarrow> (a, p) \<in> ?R" if "p \<noteq> n" for p
  proof
    assume "(n, p) \<in> ?R'"
    from cluster_insert [OF this] that from_n [of p] from_n [of a] an
    show "(a, p) \<in> ?R" by blast
  next
    assume "(a, p) \<in> ?R"
    then have "(a, p) \<in> ?R'" by (rule up)
    moreover have "(n, a) \<in> ?R'" by (rule cluster_insert_edge)
    ultimately show "(n, p) \<in> ?R'" by (rule rtrancl_trans [rotated])
  qed
  have Pn: "p \<noteq> n" if "p \<in> P" for p
    using that sub fresh(1) by blast
  fix v assume v: "v \<in> insert n V"
  show "\<exists>!p. p \<in> P \<and> (v, p) \<in> ?R'"
  proof (cases "v = n")
    case True
    from inv a have "\<exists>!p. p \<in> P \<and> (a, p) \<in> ?R" by blast
    then show ?thesis
      unfolding True using new Pn by (metis (no_types, lifting))
  next
    case False
    with v have "v \<in> V" by simp
    with inv have "\<exists>!p. p \<in> P \<and> (v, p) \<in> ?R" by blast
    then show ?thesis
      using old [OF False] Pn by (metis (no_types, lifting))
  qed
qed

lemma one_primary_demote:
  assumes inv: "\<forall>v \<in> V. \<exists>!p. p \<in> P \<and> (v, p) \<in> (E \<union> E\<inverse>)\<^sup>*"
    and p0: "p0 \<in> P" and s: "s \<in> P" and ne: "p0 \<noteq> s" and sub: "P \<subseteq> V"
  shows "\<forall>v \<in> V.
           \<exists>!p. p \<in> P - {p0} \<and> (v, p) \<in> (insert (p0, s) E \<union> (insert (p0, s) E)\<inverse>)\<^sup>*"
proof
  let ?R = "(E \<union> E\<inverse>)\<^sup>*"
  let ?R' = "(insert (p0, s) E \<union> (insert (p0, s) E)\<inverse>)\<^sup>*"
  have up: "(x, y) \<in> ?R'" if "(x, y) \<in> ?R" for x y
    using cluster_mono [OF _ that, of "insert (p0, s) E"] by blast
  have own: "x = r" if "r \<in> P" "x \<in> P" "(r, x) \<in> ?R" for r x
  proof -
    from that(1) sub have "r \<in> V" by blast
    with inv have "\<exists>!p. p \<in> P \<and> (r, p) \<in> ?R" by blast
    moreover have "r \<in> P \<and> (r, r) \<in> ?R" using that(1) by simp
    ultimately show ?thesis using that(2,3) by blast
  qed
  fix v assume v: "v \<in> V"
  with inv obtain q where q: "q \<in> P" "(v, q) \<in> ?R"
    and uq: "\<And>p. p \<in> P \<Longrightarrow> (v, p) \<in> ?R \<Longrightarrow> p = q"
    by blast
  have char: "(v, x) \<in> ?R \<or> ((v, p0) \<in> ?R \<and> x = s)"
    if x: "x \<in> P - {p0}" "(v, x) \<in> ?R'" for x
  proof -
    from cluster_insert [OF x(2)] consider
      "(v, x) \<in> ?R" | "(v, p0) \<in> ?R" "(s, x) \<in> ?R" | "(v, s) \<in> ?R" "(p0, x) \<in> ?R"
      by blast
    then show ?thesis
    proof cases
      case 1
      then show ?thesis by simp
    next
      case 2
      from own [OF s _ 2(2)] x(1) have "x = s" by simp
      with 2(1) show ?thesis by simp
    next
      case 3
      from own [OF p0 _ 3(2)] x(1) show ?thesis by simp
    qed
  qed
  show "\<exists>!p. p \<in> P - {p0} \<and> (v, p) \<in> ?R'"
  proof (cases "q = p0")
    case True
    have vs: "(v, s) \<in> ?R'"
    proof -
      from q(2) True have "(v, p0) \<in> ?R'" using up by simp
      moreover have "(p0, s) \<in> ?R'" by (rule cluster_insert_edge)
      ultimately show ?thesis by (rule rtrancl_trans)
    qed
    show ?thesis
    proof (rule ex1I [of _ s])
      show "s \<in> P - {p0} \<and> (v, s) \<in> ?R'" using s ne vs by simp
    next
      fix x assume x: "x \<in> P - {p0} \<and> (v, x) \<in> ?R'"
      then have "(v, x) \<in> ?R \<or> ((v, p0) \<in> ?R \<and> x = s)" using char by blast
      moreover have "(v, x) \<notin> ?R" using uq [of x] x True by auto
      ultimately show "x = s" by simp
    qed
  next
    case False
    have np: "(v, p0) \<notin> ?R" using uq [OF p0] False by auto
    show ?thesis
    proof (rule ex1I [of _ q])
      show "q \<in> P - {p0} \<and> (v, q) \<in> ?R'" using q False up by simp
    next
      fix x assume x: "x \<in> P - {p0} \<and> (v, x) \<in> ?R'"
      then have "(v, x) \<in> ?R \<or> ((v, p0) \<in> ?R \<and> x = s)" using char by blast
      with np have "(v, x) \<in> ?R" by simp
      with uq [of x] x show "x = q" by simp
    qed
  qed
qed


subsection \<open>One primary per cluster, step by step\<close>

lemma onePrimaryPerCluster_ids:
  "onePrimaryPerCluster db \<longleftrightarrow>
     (\<forall>v \<in> id_c ` set (contacts db).
         \<exists>!p. p \<in> primaryIds (contacts db) \<and>
              (v, p) \<in> (links (contacts db) \<union> (links (contacts db))\<inverse>)\<^sup>*)"
  by (simp add: onePrimaryPerCluster_def sameCluster_def)

lemma primaryIds_subset: "primaryIds rows \<subseteq> id_c ` set rows"
  by (auto simp: primaryIds_def)

lemma links_Domain: "Domain (links rows) \<subseteq> id_c ` set rows"
  by (auto simp: links_def)

lemma links_Range: "wellFormed db \<Longrightarrow> Range (links (contacts db)) \<subseteq> id_c ` set (contacts db)"
  by (fastforce simp: links_def wellFormed_def)

lemma wellFormed_seq_fresh: "wellFormed db \<Longrightarrow> contacts_id_seq db \<notin> id_c ` set (contacts db)"
  by (fastforce simp: wellFormed_def)

lemma links_snoc_None: "linkedId n = None \<Longrightarrow> links (rows @ [n]) = links rows"
  by (auto simp: links_def)

lemma links_snoc_Some:
  "linkedId n = Some l \<Longrightarrow> links (rows @ [n]) = insert (id_c n, l) (links rows)"
  by (auto simp: links_def)

lemma primaryIds_snoc:
  "primaryIds (rows @ [n]) =
     (if linkPrecedence n = PRIMARY then insert (id_c n) (primaryIds rows) else primaryIds rows)"
  by (auto simp: primaryIds_def)

lemma one_primary_insert_primary:
  assumes wf: "wellFormed db" and inv: "onePrimaryPerCluster db"
    and n: "id_c n = contacts_id_seq db" "linkedId n = None" "linkPrecedence n = PRIMARY"
  shows "onePrimaryPerCluster (db\<lparr>contacts := contacts db @ [n],
                                   contacts_id_seq := Suc (contacts_id_seq db)\<rparr>)"
proof -
  let ?V = "id_c ` set (contacts db)" and ?E = "links (contacts db)"
  have fresh: "id_c n \<notin> ?V" "id_c n \<notin> Domain ?E" "id_c n \<notin> Range ?E"
    using wellFormed_seq_fresh [OF wf] links_Domain [of "contacts db"] links_Range [OF wf] n(1)
    by auto
  from one_primary_add_root [OF inv [unfolded onePrimaryPerCluster_ids] fresh primaryIds_subset]
  show ?thesis
    by (simp add: onePrimaryPerCluster_ids links_snoc_None n primaryIds_snoc)
qed

lemma one_primary_insert_secondary:
  assumes wf: "wellFormed db" and inv: "onePrimaryPerCluster db"
    and n: "id_c n = contacts_id_seq db" "linkedId n = Some a" "linkPrecedence n = SECONDARY"
    and a: "a \<in> id_c ` set (contacts db)"
  shows "onePrimaryPerCluster (db\<lparr>contacts := contacts db @ [n],
                                   contacts_id_seq := Suc (contacts_id_seq db)\<rparr>)"
proof -
  let ?V = "id_c ` set (contacts db)" and ?E = "links (contacts db)"
  have fresh: "id_c n \<notin> ?V" "id_c n \<notin> Domain ?E" "id_c n \<notin> Range ?E"
    using wellFormed_seq_fresh [OF wf] links_Domain [of "contacts db"] links_Range [OF wf] n(1)
    by auto
  from one_primary_add_leaf
         [OF inv [unfolded onePrimaryPerCluster_ids] fresh primaryIds_subset a]
  show ?thesis
    by (simp add: onePrimaryPerCluster_ids links_snoc_Some [OF n(2)] n primaryIds_snoc)
qed

lemma demoteRows_other_id:
  assumes "distinct (map id_c rows)" and "p \<in> set rows" and "deletedAt p \<noteq> None"
  shows "demoteRows {id_c p} s t rows = rows"
proof -
  have "r = (if id_c r \<in> {id_c p} \<and> deletedAt r = None then demoted s t r else r)"
    if "r \<in> set rows" for r
    using distinct_ids_eq [OF assms(1) that assms(2)] assms(3) by auto
  then show ?thesis
    unfolding demoteRows_def by (simp add: map_idI)
qed

lemma links_demote:
  assumes d: "distinct (map id_c rows)" and p: "p \<in> set rows" "deletedAt p = None"
    "linkedId p = None"
  shows "links (demoteRows {id_c p} s t rows) = insert (id_c p, s) (links rows)"
proof -
  have same: "r = p" if "r \<in> set rows" "id_c r = id_c p" for r
    using distinct_ids_eq [OF d that(1) p(1) that(2)] .
  show ?thesis
  proof (rule set_eqI, clarify)
    fix i l
    show "(i, l) \<in> links (demoteRows {id_c p} s t rows) \<longleftrightarrow>
          (i, l) \<in> insert (id_c p, s) (links rows)"
    proof
      assume "(i, l) \<in> links (demoteRows {id_c p} s t rows)"
      then obtain r where r: "r \<in> set rows"
        and c: "id_c (if id_c r = id_c p \<and> deletedAt r = None then demoted s t r else r) = i"
               "linkedId (if id_c r = id_c p \<and> deletedAt r = None then demoted s t r else r)
                  = Some l"
        by (auto simp: links_def demoteRows_def)
      show "(i, l) \<in> insert (id_c p, s) (links rows)"
      proof (cases "id_c r = id_c p")
        case True
        with same [OF r] p c show ?thesis by simp
      next
        case False
        with r c show ?thesis by (auto simp: links_def)
      qed
    next
      assume "(i, l) \<in> insert (id_c p, s) (links rows)"
      then consider "i = id_c p" "l = s" | "(i, l) \<in> links rows" by auto
      then show "(i, l) \<in> links (demoteRows {id_c p} s t rows)"
      proof cases
        case 1
        have "demoted s t p \<in> set (demoteRows {id_c p} s t rows)"
          using p by (auto simp: demoteRows_def image_iff)
        moreover have "id_c (demoted s t p) = i \<and> linkedId (demoted s t p) = Some l"
          using 1 by simp
        ultimately show ?thesis unfolding links_def by blast
      next
        case 2
        then obtain r where r: "r \<in> set rows" "id_c r = i" "linkedId r = Some l"
          by (auto simp: links_def)
        with same [of r] p(3) have "id_c r \<noteq> id_c p" by auto
        then have "r \<in> set (demoteRows {id_c p} s t rows)"
          using r(1) by (simp add: demoteRows_keeps)
        with r show ?thesis by (auto simp: links_def)
      qed
    qed
  qed
qed

lemma primaryIds_demote:
  assumes d: "distinct (map id_c rows)" and p: "p \<in> set rows" "deletedAt p = None"
  shows "primaryIds (demoteRows {id_c p} s t rows) = primaryIds rows - {id_c p}"
proof -
  have same: "r = p" if "r \<in> set rows" "id_c r = id_c p" for r
    using distinct_ids_eq [OF d that(1) p(1) that(2)] .
  show ?thesis
  proof (rule set_eqI)
    fix i
    show "i \<in> primaryIds (demoteRows {id_c p} s t rows) \<longleftrightarrow> i \<in> primaryIds rows - {id_c p}"
    proof
      assume "i \<in> primaryIds (demoteRows {id_c p} s t rows)"
      then obtain r where r: "r \<in> set rows"
        and c: "id_c (if id_c r = id_c p \<and> deletedAt r = None then demoted s t r else r) = i"
               "linkPrecedence (if id_c r = id_c p \<and> deletedAt r = None
                                then demoted s t r else r) = PRIMARY"
        by (auto simp: primaryIds_def demoteRows_def)
      show "i \<in> primaryIds rows - {id_c p}"
      proof (cases "id_c r = id_c p")
        case True
        with same [OF r] p c show ?thesis by simp
      next
        case False
        with r c show ?thesis by (auto simp: primaryIds_def)
      qed
    next
      assume "i \<in> primaryIds rows - {id_c p}"
      then obtain r where r: "r \<in> set rows" "id_c r = i" "linkPrecedence r = PRIMARY"
        "i \<noteq> id_c p"
        by (auto simp: primaryIds_def)
      then have "r \<in> set (demoteRows {id_c p} s t rows)"
        by (simp add: demoteRows_keeps)
      with r show "i \<in> primaryIds (demoteRows {id_c p} s t rows)"
        by (auto simp: primaryIds_def)
    qed
  qed
qed

lemma one_primary_demote_row:
  assumes wf: "wellFormed db" and inv: "onePrimaryPerCluster db"
    and p: "p \<in> set (contacts db)" "linkPrecedence p = PRIMARY"
    and s: "s \<in> primaryIds (contacts db)" "id_c p \<noteq> s"
  shows "onePrimaryPerCluster (db\<lparr>contacts := demoteRows {id_c p} s t (contacts db)\<rparr>)"
proof (cases "deletedAt p = None")
  case False
  from wf have "distinct (map id_c (contacts db))" by (simp add: wellFormed_def)
  from demoteRows_other_id [OF this p(1) False] inv show ?thesis
    by (simp add: onePrimaryPerCluster_def)
next
  case True
  from wf have d: "distinct (map id_c (contacts db))" by (simp add: wellFormed_def)
  from wf p have l: "linkedId p = None" by (simp add: wellFormed_def)
  have pp: "id_c p \<in> primaryIds (contacts db)"
    using p by (auto simp: primaryIds_def)
  have "map id_c (demoteRows {id_c p} s t (contacts db)) = map id_c (contacts db)"
    by simp
  then have "set (map id_c (demoteRows {id_c p} s t (contacts db))) = set (map id_c (contacts db))"
    by (rule arg_cong)
  then have img: "id_c ` set (demoteRows {id_c p} s t (contacts db)) = id_c ` set (contacts db)"
    by (simp only: set_map)
  from one_primary_demote [OF inv [unfolded onePrimaryPerCluster_ids] pp s(1) s(2)
      primaryIds_subset]
  show ?thesis
    by (simp add: onePrimaryPerCluster_ids img links_demote [OF d p(1) True l]
        primaryIds_demote [OF d p(1) True])
qed


lemma one_primary_demote_list:
  assumes "wellFormed db" and "onePrimaryPerCluster db"
    and "distinct (map id_c cs)"
    and "\<forall>c \<in> set cs. c \<in> set (contacts db) \<and> linkPrecedence c = PRIMARY \<and> id_c c \<noteq> s"
    and "s \<in> primaryIds (contacts db)"
  shows "onePrimaryPerCluster (db\<lparr>contacts := demoteRows (id_c ` set cs) s t (contacts db)\<rparr>)"
  using assms
proof (induction cs arbitrary: db)
  case Nil
  then show ?case by (simp add: onePrimaryPerCluster_def)
next
  case (Cons c cs)
  let ?db1 = "db\<lparr>contacts := demoteRows {id_c c} s t (contacts db)\<rparr>"
  from Cons.prems(5) obtain r where r: "r \<in> set (contacts db)" "id_c r = s"
    "linkPrecedence r = PRIMARY"
    by (auto simp: primaryIds_def)
  then have s_id: "s \<in> id_c ` set (contacts db)" by blast
  have c: "c \<in> set (contacts db)" "linkPrecedence c = PRIMARY" "id_c c \<noteq> s"
    using Cons.prems(4) by simp_all
  have wf1: "wellFormed ?db1"
    by (rule wellFormed_demoteRows [OF Cons.prems(1) s_id])
  have inv1: "onePrimaryPerCluster ?db1"
    by (rule one_primary_demote_row [OF Cons.prems(1,2) c(1,2) Cons.prems(5) c(3)])
  have d1: "distinct (map id_c cs)"
    using Cons.prems(3) by simp
  have rest: "\<forall>x \<in> set cs. x \<in> set (contacts ?db1) \<and> linkPrecedence x = PRIMARY \<and> id_c x \<noteq> s"
  proof
    fix x assume x: "x \<in> set cs"
    then have "id_c x \<in> id_c ` set cs" by (rule imageI)
    moreover from Cons.prems(3) have "id_c c \<notin> id_c ` set cs" by simp
    ultimately have "id_c x \<noteq> id_c c" by metis
    moreover from x Cons.prems(4)
    have "x \<in> set (contacts db)" "linkPrecedence x = PRIMARY" "id_c x \<noteq> s" by simp_all
    ultimately show "x \<in> set (contacts ?db1) \<and> linkPrecedence x = PRIMARY \<and> id_c x \<noteq> s"
      by (simp add: demoteRows_keeps)
  qed
  have "r \<in> set (contacts ?db1)"
    using r c(3) by (simp add: demoteRows_keeps)
  with r have s1: "s \<in> primaryIds (contacts ?db1)"
    unfolding primaryIds_def by blast
  from Cons.IH [OF wf1 inv1 d1 rest s1]
  show ?case by (simp add: demoteRows_insert)
qed

lemma one_primary_identify:
  assumes wf: "wellFormed db" and inv: "onePrimaryPerCluster db"
  shows "onePrimaryPerCluster (snd (identifyContact request db))"
proof (cases request db rule: identify_cases)
  case invalid
  with inv show ?thesis by simp
next
  case new
  have "onePrimaryPerCluster (snd (createNewPrimaryContact request db))"
    unfolding createNewPrimaryContact_def create_def Let_def
    by (simp add: one_primary_insert_primary [OF wf inv])
  with new show ?thesis by simp
next
  case (merge survivor other others)
  let ?db1 = "db\<lparr>contacts := demoteRows (id_c ` set (other # others)) (id_c survivor)
                                        (now db) (contacts db)\<rparr>"
  from wf have d: "distinct (map id_c (contacts db))" by (simp add: wellFormed_def)
  have "distinct (map id_c (matchedPrimaries request db))"
    unfolding matchedPrimaries_select by (rule distinct_ids_selectOrdered [OF d])
  then have dist: "distinct (map id_c (other # others))"
    and notin: "id_c survivor \<notin> id_c ` set (other # others)"
    by (simp_all add: merge)
  have other_ids: "\<forall>c \<in> set (other # others). id_c c \<noteq> id_c survivor"
  proof
    fix c assume "c \<in> set (other # others)"
    then have "id_c c \<in> id_c ` set (other # others)" by (rule imageI)
    with notin show "id_c c \<noteq> id_c survivor" by metis
  qed
  have prim: "c \<in> set (contacts db) \<and> linkPrecedence c = PRIMARY"
    if "c \<in> set (survivor # other # others)" for c
  proof -
    from that have "c \<in> set (matchedPrimaries request db)" by (simp add: merge)
    then show ?thesis
      by (simp add: findByEmailOrPhone_select isPrimary_def)
  qed
  then have s: "id_c survivor \<in> primaryIds (contacts db)"
    unfolding primaryIds_def by auto
  have rows: "\<forall>c \<in> set (other # others).
      c \<in> set (contacts db) \<and> linkPrecedence c = PRIMARY \<and> id_c c \<noteq> id_c survivor"
    using prim other_ids by simp
  have s_id: "id_c survivor \<in> id_c ` set (contacts db)"
    using prim by auto
  have wf1: "wellFormed ?db1"
    by (rule wellFormed_demoteRows [OF wf s_id])
  have inv1: "onePrimaryPerCluster ?db1"
    by (rule one_primary_demote_list [OF wf inv dist rows s])
  have "id_c survivor \<in> set (map id_c (contacts ?db1))"
    using s_id by simp
  then have in1: "id_c survivor \<in> id_c ` set (contacts ?db1)"
    by (simp only: set_map)
  have inv2: "onePrimaryPerCluster (snd (create (req_phoneNumber request) (req_email request)
                                          (Some (id_c survivor)) SECONDARY ?db1))"
    unfolding create_secondary
    by (rule one_primary_insert_secondary [OF wf1 inv1 _ _ _ in1])
       (simp_all add: newSecondary_def)
  show ?thesis
    unfolding identify_merge [OF merge] Let_def
    using inv1 inv2 by (simp split: if_splits)
next
  case stuck
  with inv show ?thesis by simp
next
  case (direct anchor)
  from primaryContactOf_in_table [OF direct(4)]
  have in_ids: "id_c anchor \<in> id_c ` set (contacts db)" by blast
  have inv2: "onePrimaryPerCluster (snd (create (req_phoneNumber request) (req_email request)
                                          (Some (id_c anchor)) SECONDARY db))"
    unfolding create_secondary
    by (rule one_primary_insert_secondary [OF wf inv _ _ _ in_ids])
       (simp_all add: newSecondary_def)
  show ?thesis
    unfolding identify_direct [OF direct] Let_def
    using inv inv2 by (simp split: if_splits)
qed

lemma onePrimaryPerCluster_now [simp]:
  "onePrimaryPerCluster (db\<lparr>now := t\<rparr>) = onePrimaryPerCluster db"
  by (simp add: onePrimaryPerCluster_def)

section \<open>The anchor when no primary is matched\<close>

text \<open>
  C6 on \<open>mergedDb\<close>, the store that four calls leave (\<open>familyDb_reached\<close>,
  \<open>mergedDb_reached\<close>). The request with the email of contact 3 matches that contact
  alone, a SECONDARY whose \<open>linkedId\<close> is 2. The contacts fetched for 2 are contact 2,
  itself a SECONDARY since the merge, and contact 3; the code takes the first of them,
  contact 2, as the anchor, and the call ends in the TypeError. The PRIMARY of the
  cluster is contact 1.
\<close>

theorem anchor_is_first_fetched_not_primary:
  "matchedContacts (request_of (Some ''c@x'') None) mergedDb =
     [contact_of 3 (Some ''c@x'') (Some ''2'') (Some 2) SECONDARY 30] \<and>
   matchedPrimaries (request_of (Some ''c@x'') None) mergedDb = [] \<and>
   findLinkedContacts 2 mergedDb =
     [(contact_of 2 (Some ''b@x'') (Some ''2'') (Some 1) SECONDARY 20)\<lparr>updatedAt := 40\<rparr>,
      contact_of 3 (Some ''c@x'') (Some ''2'') (Some 2) SECONDARY 30] \<and>
   primaryContactOf (matchedPrimaries (request_of (Some ''c@x'') None) mergedDb)
                    (matchedContacts (request_of (Some ''c@x'') None) mergedDb) mergedDb =
     Some ((contact_of 2 (Some ''b@x'') (Some ''2'') (Some 1) SECONDARY 20)
             \<lparr>updatedAt := 40\<rparr>) \<and>
   linkPrecedence ((contact_of 2 (Some ''b@x'') (Some ''2'') (Some 1) SECONDARY 20)
                     \<lparr>updatedAt := 40\<rparr>) = SECONDARY \<and>
   filter isPrimary (contacts mergedDb) =
     [contact_of 1 (Some ''a@x'') (Some ''1'') None PRIMARY 10] \<and>
   identifyContact (request_of (Some ''c@x'') None) mergedDb = (Inl TypeError, mergedDb)"
  by code_simp

subsection \<open>Repeating a call\<close>

lemma findByEmailOrPhone_now [simp]:
  "findByEmailOrPhone mail phone (db\<lparr>now := t\<rparr>) = findByEmailOrPhone mail phone db"
  by (simp add: findByEmailOrPhone_def)

lemma findLinkedContacts_now [simp]:
  "findLinkedContacts root (db\<lparr>now := t\<rparr>) = findLinkedContacts root db"
  by (simp add: findLinkedContacts_def)

lemma buildResponse_now [simp]: "buildResponse root (db\<lparr>now := t\<rparr>) = buildResponse root db"
  by (simp add: buildResponse_def)

lemma primaryContactOf_now [simp]:
  "primaryContactOf ps cs (db\<lparr>now := t\<rparr>) = primaryContactOf ps cs db"
  by (simp add: primaryContactOf_def split: list.split option.split)

lemma secondaryRequired_exact_pair:
  assumes "truthy (req_email request) \<or> truthy (req_phoneNumber request)"
    and "carriesExactPair cluster request"
  shows "\<not> secondaryRequired cluster request"
  using assms by (auto simp: secondaryRequired_def carriesExactPair_def)

lemma identify_noop:
  assumes "truthy (req_email request) \<or> truthy (req_phoneNumber request)"
    and "matchedContacts request db \<noteq> []"
    and "length (matchedPrimaries request db) \<le> 1"
    and "primaryContactOf (matchedPrimaries request db) (matchedContacts request db) db
           = Some anchor"
    and "carriesExactPair (findLinkedContacts (id_c anchor) db) request"
  shows "identifyContact request db = (buildResponse (id_c anchor) db, db)"
  unfolding identify_direct [OF assms(1-4)]
  using secondaryRequired_exact_pair [OF assms(1,5)]
  by (simp add: needsNewSecondaryContact_spec [OF assms(1)])

lemma findByEmailOrPhone_demoteRows:
  "findByEmailOrPhone mail phone (db\<lparr>contacts := demoteRows ids l t (contacts db)\<rparr>) =
     demoteRows ids l t (findByEmailOrPhone mail phone db)"
proof -
  let ?g = "\<lambda>r. if id_c r \<in> ids \<and> deletedAt r = None then demoted l t r else r"
  have "selectOrdered (whereEmailOrPhone mail phone) (map ?g (contacts db)) =
        map ?g (selectOrdered (\<lambda>c. whereEmailOrPhone mail phone (?g c)) (contacts db))"
    by (rule selectOrdered_map) simp
  moreover have "(\<lambda>c. whereEmailOrPhone mail phone (?g c)) = whereEmailOrPhone mail phone"
    by (rule ext) simp
  ultimately show ?thesis
    by (simp add: findByEmailOrPhone_select demoteRows_def)
qed

lemma findByEmailOrPhone_snoc:
  assumes "\<forall>c \<in> set (contacts db). createdAt c \<le> createdAt n"
  shows "findByEmailOrPhone mail phone (db\<lparr>contacts := contacts db @ [n], contacts_id_seq := k\<rparr>) =
     (if whereEmailOrPhone mail phone n then findByEmailOrPhone mail phone db @ [n]
      else findByEmailOrPhone mail phone db)"
  by (simp add: findByEmailOrPhone_select selectOrdered_snoc [OF assms])

lemma findLinkedContacts_snoc:
  assumes "\<forall>c \<in> set (contacts db). createdAt c \<le> createdAt n"
  shows "findLinkedContacts root (db\<lparr>contacts := contacts db @ [n], contacts_id_seq := k\<rparr>) =
     (if whereLinked root n then findLinkedContacts root db @ [n]
      else findLinkedContacts root db)"
  by (simp add: findLinkedContacts_def selectOrdered_snoc [OF assms])

lemma newSecondary_matches:
  "truthy (req_email request) \<or> truthy (req_phoneNumber request) \<Longrightarrow>
     whereEmailOrPhone (req_email request) (req_phoneNumber request)
       (newSecondary request root db)"
  by (auto simp: whereEmailOrPhone_def newSecondary_def)

lemma newSecondary_fields [simp]:
  "createdAt (newSecondary request root db) = now db"
  "isPrimary (newSecondary request root db) = False"
  "id_c (newSecondary request root db) = contacts_id_seq db"
  by (simp_all add: newSecondary_def isPrimary_def)

text \<open>After the insertion of the secondary the same contacts match, and the new one.\<close>

lemma matched_after_insert:
  assumes valid: "truthy (req_email request) \<or> truthy (req_phoneNumber request)"
    and clock: "\<forall>c \<in> set (contacts db). createdAt c \<le> now db"
  shows "matchedContacts request
           (snd (create (req_phoneNumber request) (req_email request) (Some root)
                        SECONDARY db)) =
         matchedContacts request db @ [newSecondary request root db]"
    and "matchedPrimaries request
           (snd (create (req_phoneNumber request) (req_email request) (Some root)
                        SECONDARY db)) =
         matchedPrimaries request db"
proof -
  have c: "\<forall>c \<in> set (contacts db). createdAt c \<le> createdAt (newSecondary request root db)"
    using clock by simp
  show "matchedContacts request
           (snd (create (req_phoneNumber request) (req_email request) (Some root)
                        SECONDARY db)) =
         matchedContacts request db @ [newSecondary request root db]"
    unfolding create_secondary findByEmailOrPhone_snoc [OF c]
    using newSecondary_matches [OF valid] by simp
  then show "matchedPrimaries request
           (snd (create (req_phoneNumber request) (req_email request) (Some root)
                        SECONDARY db)) =
         matchedPrimaries request db"
    by simp
qed

lemma matchedPrimaries_after_demotion:
  assumes d: "distinct (map id_c (contacts db))"
    and ps: "matchedPrimaries request db = survivor # others"
  shows "matchedPrimaries request
           (db\<lparr>contacts := demoteRows (id_c ` set others) l t (contacts db)\<rparr>) = [survivor]"
proof -
  let ?ids = "id_c ` set others"
  let ?g = "\<lambda>r. if id_c r \<in> ?ids \<and> deletedAt r = None then demoted l t r else r"
  let ?xs = "matchedContacts request db"
  have "distinct (map id_c (matchedPrimaries request db))"
    unfolding matchedPrimaries_select by (rule distinct_ids_selectOrdered [OF d])
  then have s_not: "id_c survivor \<notin> ?ids"
    by (simp add: ps)
  have live: "deletedAt x = None" if "x \<in> set ?xs" for x
    using matched_in_table [OF that] by simp
  have "filter (\<lambda>x. isPrimary (?g x)) ?xs = filter (\<lambda>x. isPrimary x \<and> id_c x \<notin> ?ids) ?xs"
    by (rule filter_cong) (auto simp: live isPrimary_def)
  also have "\<dots> = filter (\<lambda>x. id_c x \<notin> ?ids) (matchedPrimaries request db)"
    by (simp add: conj_commute)
  also have "\<dots> = [survivor]"
    using s_not by (simp add: ps)
  finally have "filter (\<lambda>x. isPrimary (?g x)) ?xs = [survivor]" .
  then have step: "filter isPrimary (map ?g ?xs) = map ?g [survivor]"
    by (simp add: filter_map comp_def)
  have "matchedPrimaries request (db\<lparr>contacts := demoteRows ?ids l t (contacts db)\<rparr>) =
        filter isPrimary (demoteRows ?ids l t ?xs)"
    by (simp only: findByEmailOrPhone_demoteRows)
  also have "\<dots> = filter isPrimary (map ?g ?xs)"
    by (simp only: demoteRows_def)
  also have "\<dots> = [survivor]"
    using step s_not by simp
  finally show ?thesis .
qed

section \<open>Repeating a represented request\<close>

text \<open>
  C7. Take a well-formed store whose contacts were not created after the present clock
  reading, and a call that returns a view. If some contact among those linked to the
  view's primary, in the store the call leaves, carries the request's exact pair of email
  and phone number, then the same request, repeated at any later or earlier clock
  reading, returns the same view and leaves the store exactly as it found it: no row is
  created and none is demoted.
\<close>

theorem repeated_request_is_idempotent:
  assumes wf: "wellFormed db"
    and clock: "\<forall>c \<in> set (contacts db). createdAt c \<le> now db"
    and first: "identifyContact request db = (Inr v, db')"
    and pair: "carriesExactPair (findLinkedContacts (primaryContactId v) db') request"
  shows "identifyContact request (db'\<lparr>now := t\<rparr>) = (Inr v, db'\<lparr>now := t\<rparr>)"
proof -
  have wf': "wellFormed db'"
    using wellFormed_identify [OF wf, of request] first by simp
  have view: "buildResponse (primaryContactId v) db' = Inr v"
    by (rule identify_view [OF wf first])
  have noop: "identifyContact request (db'\<lparr>now := t\<rparr>) = (Inr v, db'\<lparr>now := t\<rparr>)"
    if "truthy (req_email request) \<or> truthy (req_phoneNumber request)"
      and "matchedContacts request db' \<noteq> []"
      and "length (matchedPrimaries request db') \<le> 1"
      and "primaryContactOf (matchedPrimaries request db') (matchedContacts request db') db'
             = Some a"
      and "id_c a = primaryContactId v" for a
    using identify_noop [of request "db'\<lparr>now := t\<rparr>" a] that pair view by simp
  show ?thesis
  proof (cases request db rule: identify_cases)
    case invalid
    with first show ?thesis by simp
  next
    case new
    let ?n = "\<lparr>id_c = contacts_id_seq db, phoneNumber = req_phoneNumber request,
               email = req_email request, linkedId = None, linkPrecedence = PRIMARY,
               createdAt = now db, updatedAt = now db, deletedAt = None\<rparr>"
    from first new(3) have db': "db' = db\<lparr>contacts := contacts db @ [?n],
                                           contacts_id_seq := Suc (contacts_id_seq db)\<rparr>"
      and root: "primaryContactId v = contacts_id_seq db"
      by (auto simp: createNewPrimaryContact_def create_def Let_def)
    have c: "\<forall>c \<in> set (contacts db). createdAt c \<le> createdAt ?n"
      using clock by simp
    have m: "whereEmailOrPhone (req_email request) (req_phoneNumber request) ?n"
      using new(1) by (auto simp: whereEmailOrPhone_def)
    have matched: "matchedContacts request db' = [?n]"
      unfolding db' findByEmailOrPhone_snoc [OF c] using m new(2) by simp
    then have prims: "matchedPrimaries request db' = [?n]"
      by (simp add: isPrimary_def)
    show ?thesis
      by (rule noop [OF new(1), of ?n])
         (simp_all add: matched prims primaryContactOf_def root isPrimary_def)
  next
    case (merge survivor other others)
    let ?db1 = "db\<lparr>contacts := demoteRows (id_c ` set (other # others)) (id_c survivor)
                                          (now db) (contacts db)\<rparr>"
    have ne: "matchedContacts request db \<noteq> []"
      using merge by auto
    then have valid: "truthy (req_email request) \<or> truthy (req_phoneNumber request)"
      by (rule findByEmailOrPhone_valid)
    from wf have d: "distinct (map id_c (contacts db))" by (simp add: wellFormed_def)
    have p1: "matchedPrimaries request ?db1 = [survivor]"
      by (rule matchedPrimaries_after_demotion [OF d merge])
    have clock1: "\<forall>c \<in> set (contacts ?db1). createdAt c \<le> now ?db1"
      using clock by (auto simp: demoteRows_def)
    from first have b: "buildResponse (id_c survivor) db' = Inr v"
      and db': "db' = ?db1 \<or>
                db' = snd (create (req_phoneNumber request) (req_email request)
                                  (Some (id_c survivor)) SECONDARY ?db1)"
      unfolding identify_merge [OF merge] Let_def by (auto split: if_splits)
    have root: "id_c survivor = primaryContactId v"
      using buildResponse_root [OF wf' b] by simp
    from db' have p': "matchedPrimaries request db' = [survivor]"
      using p1 matched_after_insert(2) [OF valid clock1, of "id_c survivor"] by auto
    then have ne': "matchedContacts request db' \<noteq> []"
      by auto
    show ?thesis
      by (rule noop [OF valid ne', of survivor])
         (simp_all add: p' primaryContactOf_def root)
  next
    case stuck
    with first show ?thesis by simp
  next
    case (direct anchor)
    let ?db2 = "snd (create (req_phoneNumber request) (req_email request)
                            (Some (id_c anchor)) SECONDARY db)"
    let ?m = "newSecondary request (id_c anchor) db"
    from first have b: "buildResponse (id_c anchor) db' = Inr v"
      and db': "db' = db \<or> db' = ?db2"
      unfolding identify_direct [OF direct] Let_def by (auto split: if_splits)
    have root: "id_c anchor = primaryContactId v"
      using buildResponse_root [OF wf' b] by simp
    have same: "matchedContacts request ?db2 \<noteq> [] \<and>
                length (matchedPrimaries request ?db2) \<le> 1 \<and>
                primaryContactOf (matchedPrimaries request ?db2)
                                 (matchedContacts request ?db2) ?db2 = Some anchor"
    proof (cases "matchedPrimaries request db")
      case (Cons p ps)
      with direct(4) show ?thesis
        using matched_after_insert [OF direct(1) clock, of "id_c anchor"] direct(3)
        by (simp add: primaryContactOf_def)
    next
      case Nil
      with direct(4) obtain c cs l as where
        m: "matchedContacts request db = c # cs" and l: "linkedId c = Some l"
        and f: "findLinkedContacts l db = anchor # as"
        by (auto simp: primaryContactOf_def split: list.splits option.splits)
      have cm: "\<forall>c \<in> set (contacts db). createdAt c \<le> createdAt ?m"
        using clock by simp
      have "findLinkedContacts l ?db2 = anchor # as \<or>
            findLinkedContacts l ?db2 = anchor # as @ [?m]"
        unfolding create_secondary findLinkedContacts_snoc [OF cm] by (simp add: f)
      then have "primaryContactOf [] (c # cs @ [?m]) ?db2 = Some anchor"
        by (auto simp: primaryContactOf_def l)
      with Nil m show ?thesis
        using matched_after_insert [OF direct(1) clock, of "id_c anchor"]
        by simp
    qed
    from db' show ?thesis
    proof
      assume "db' = db"
      with direct root show ?thesis
        using noop [of anchor] by simp
    next
      assume "db' = ?db2"
      with same root direct(1) show ?thesis
        using noop [of anchor] by simp
    qed
  qed
qed


theorem repeated_request_is_idempotent_witness:
  "fst (identifyContact (request_of (Some ''d@x'') (Some ''2'')) familyDb) =
     Inr \<lparr>primaryContactId = 2, emails = [''b@x'', ''c@x'', ''d@x''], phoneNumbers = [''2''],
          secondaryContactIds = [3, 4]\<rparr> \<and>
   contacts (snd (identifyContact (request_of (Some ''d@x'') (Some ''2'')) familyDb)) =
     contacts familyDb @ [contact_of 4 (Some ''d@x'') (Some ''2'') (Some 2) SECONDARY 40] \<and>
   identifyContact (request_of (Some ''d@x'') (Some ''2''))
     ((snd (identifyContact (request_of (Some ''d@x'') (Some ''2'')) familyDb))\<lparr>now := 50\<rparr>) =
     (Inr \<lparr>primaryContactId = 2, emails = [''b@x'', ''c@x'', ''d@x''], phoneNumbers = [''2''],
           secondaryContactIds = [3, 4]\<rparr>,
      (snd (identifyContact (request_of (Some ''d@x'') (Some ''2'')) familyDb))\<lparr>now := 50\<rparr>)"
proof -
  let ?r = "request_of (Some ''d@x'') (Some ''2'')"
  let ?v = "\<lparr>primaryContactId = 2, emails = [''b@x'', ''c@x'', ''d@x''],
             phoneNumbers = [''2''], secondaryContactIds = [3, 4]\<rparr>"
  let ?db' = "snd (identifyContact ?r familyDb)"
  have wf: "wellFormed familyDb"
    by code_simp
  have clock: "\<forall>c \<in> set (contacts familyDb). createdAt c \<le> now familyDb"
    by code_simp
  have res: "fst (identifyContact ?r familyDb) = Inr ?v"
    by code_simp
  then have first: "identifyContact ?r familyDb = (Inr ?v, ?db')"
    by (simp add: prod_eq_iff)
  have rows: "contacts ?db' =
      contacts familyDb @ [contact_of 4 (Some ''d@x'') (Some ''2'') (Some 2) SECONDARY 40]"
    by code_simp
  have pair: "carriesExactPair (findLinkedContacts (primaryContactId ?v) ?db') ?r"
    by code_simp
  from repeated_request_is_idempotent [OF wf clock first pair, of 50] res rows
  show ?thesis by simp
qed

subsection \<open>What a call creates and what a merge leaves\<close>

lemma matchedPrimaries_after_secondary:
  assumes "\<not> isPrimary n"
  shows "matchedPrimaries request (db\<lparr>contacts := contacts db @ [n], contacts_id_seq := k\<rparr>) =
         matchedPrimaries request db"
  using assms by (simp add: matchedPrimaries_select selectOrdered_def)

lemma merge_leaves_one_matched_primary:
  assumes "distinct (map id_c (contacts db))"
    and "1 < length (matchedPrimaries request db)"
  shows "matchedPrimaries request (snd (identifyContact request db)) =
           [hd (matchedPrimaries request db)]"
proof -
  from assms(2) obtain survivor other others
    where ps: "matchedPrimaries request db = survivor # other # others"
    by (cases "matchedPrimaries request db"; cases "tl (matchedPrimaries request db)") auto
  let ?db1 = "db\<lparr>contacts := demoteRows (id_c ` set (other # others)) (id_c survivor)
                                        (now db) (contacts db)\<rparr>"
  have p1: "matchedPrimaries request ?db1 = [survivor]"
    by (rule matchedPrimaries_after_demotion [OF assms(1) ps])
  have p2: "matchedPrimaries request
              (snd (create (req_phoneNumber request) (req_email request)
                           (Some (id_c survivor)) SECONDARY ?db1)) = [survivor]"
    unfolding create_secondary
    using matchedPrimaries_after_secondary
            [where n = "newSecondary request (id_c survivor) ?db1" and db = ?db1] p1
    by simp
  show ?thesis
    unfolding identify_merge [OF ps] Let_def
    using p1 p2 by (simp add: ps split: if_splits)
qed

lemma created_contact_precedence:
  assumes wf: "wellFormed db"
    and c: "c \<in> set (contacts (snd (identifyContact request db)))"
    and new: "contacts_id_seq db \<le> id_c c"
  shows "linkPrecedence c = PRIMARY \<longleftrightarrow> matchedContacts request db = []"
proof -
  have old: "id_c r < contacts_id_seq db" if "r \<in> set (contacts db)" for r
    using wf that by (simp add: wellFormed_def)
  have fresh: "c \<notin> set (contacts db)"
    using old [of c] new by auto
  show ?thesis
  proof (cases request db rule: identify_cases)
    case invalid
    with c fresh show ?thesis by simp
  next
    case new_primary: new
    from c fresh have "linkPrecedence c = PRIMARY"
      unfolding new_primary(3) createNewPrimaryContact_def create_def Let_def
      by auto
    with new_primary(2) show ?thesis by simp
  next
    case (merge survivor other others)
    have ne: "matchedContacts request db \<noteq> []"
      using merge by auto
    have demoted_old: "id_c r < contacts_id_seq db"
      if "r \<in> set (demoteRows (id_c ` set (other # others)) (id_c survivor) (now db)
                               (contacts db))" for r
    proof -
      from that have "id_c r \<in> set (map id_c (demoteRows (id_c ` set (other # others))
                                                  (id_c survivor) (now db) (contacts db)))"
        by (simp only: set_map) (rule imageI)
      then have "id_c r \<in> set (map id_c (contacts db))" by simp
      with old show ?thesis by auto
    qed
    have "c \<notin> set (demoteRows (id_c ` set (other # others)) (id_c survivor) (now db)
                                    (contacts db))"
      using demoted_old [of c] new by (simp only: not_less [symmetric]) blast
    with c have "linkPrecedence c = SECONDARY"
      unfolding identify_merge [OF merge] Let_def create_secondary
      by (auto simp: newSecondary_def split: if_splits)
    with ne show ?thesis by simp
  next
    case stuck
    with c fresh show ?thesis by simp
  next
    case (direct anchor)
    from c fresh have "linkPrecedence c = SECONDARY"
      unfolding identify_direct [OF direct] Let_def create_secondary
      by (auto simp: newSecondary_def split: if_splits)
    with direct(2) show ?thesis by simp
  qed
qed

section \<open>One primary per cluster\<close>

text \<open>
  C5. From a well-formed store in which every cluster holds exactly one PRIMARY, every
  sequence of calls run one after the other, each at any clock reading, leaves a
  well-formed store in which every cluster holds exactly one PRIMARY, whether the calls
  return or throw. A call creates a contact as PRIMARY exactly when no contact matched
  the request, and as SECONDARY otherwise; and after a call that found more than one
  matched primary, the only primary still matched is the first of them.
\<close>

theorem sequential_calls_keep_one_primary_per_cluster:
  assumes "wellFormed db" and "onePrimaryPerCluster db"
  shows "wellFormed (runAll calls db) \<and> onePrimaryPerCluster (runAll calls db) \<and>
    (\<forall>c \<in> set (contacts (snd (identifyContact request db))).
        contacts_id_seq db \<le> id_c c \<longrightarrow>
        (linkPrecedence c = PRIMARY \<longleftrightarrow> matchedContacts request db = [])) \<and>
    (1 < length (matchedPrimaries request db) \<longrightarrow>
        matchedPrimaries request (snd (identifyContact request db)) =
          [hd (matchedPrimaries request db)])"
proof -
  have run: "wellFormed (runAll calls d) \<and> onePrimaryPerCluster (runAll calls d)"
    if "wellFormed d" "onePrimaryPerCluster d" for d
    using that
  proof (induction calls arbitrary: d)
    case Nil
    then show ?case by simp
  next
    case (Cons call calls)
    obtain t r where call: "call = (t, r)"
      by (cases call)
    let ?d1 = "snd (identifyContact r (d\<lparr>now := t\<rparr>))"
    have wf0: "wellFormed (d\<lparr>now := t\<rparr>)" and inv0: "onePrimaryPerCluster (d\<lparr>now := t\<rparr>)"
      using Cons.prems by simp_all
    have "wellFormed ?d1"
      by (rule wellFormed_identify [OF wf0])
    moreover have "onePrimaryPerCluster ?d1"
      by (rule one_primary_identify [OF wf0 inv0])
    ultimately show ?case
      using Cons.IH [of ?d1] by (simp add: call)
  qed
  from assms(1) have d: "distinct (map id_c (contacts db))"
    by (simp add: wellFormed_def)
  from run [OF assms] created_contact_precedence [OF assms(1), of _ request]
    merge_leaves_one_matched_primary [OF d, of request]
  show ?thesis by blast
qed

theorem sequential_calls_keep_one_primary_per_cluster_witness:
  "wellFormed emptyDb \<and> onePrimaryPerCluster emptyDb \<and>
   runAll [(10, request_of (Some ''a@x'') (Some ''1'')),
           (20, request_of (Some ''b@x'') (Some ''2'')),
           (30, request_of (Some ''c@x'') (Some ''2'')),
           (40, request_of (Some ''a@x'') (Some ''2''))] emptyDb = mergedDb \<and>
   wellFormed mergedDb \<and> onePrimaryPerCluster mergedDb"
proof -
  let ?calls = "[(10, request_of (Some ''a@x'') (Some ''1'')),
           (20, request_of (Some ''b@x'') (Some ''2'')),
           (30, request_of (Some ''c@x'') (Some ''2'')),
           (40, request_of (Some ''a@x'') (Some ''2''))]"
  have wf: "wellFormed emptyDb"
    by code_simp
  have inv: "onePrimaryPerCluster emptyDb"
    by (simp add: onePrimaryPerCluster_def emptyDb_def)
  have run: "runAll ?calls emptyDb = mergedDb"
    by code_simp
  from sequential_calls_keep_one_primary_per_cluster [OF wf inv, of ?calls] wf inv run
  show ?thesis by simp
qed

section \<open>A consolidation root without a primary\<close>

text \<open>
  C10. \<^verbatim>\<open>buildResponse\<close> throws the TypeError exactly when the contacts fetched for its
  root hold no PRIMARY, and returns a view otherwise. A call of \<^verbatim>\<open>identifyContact\<close> that
  reaches \<^verbatim>\<open>buildResponse\<close>, from the direct branch with its anchor or from the merge
  branch with the first matched primary, throws the TypeError when the contacts fetched
  for that root, in the store as the call leaves it, hold no PRIMARY. The witness is the
  store left by a merge that demoted a primary which had a secondary of its own.
\<close>

theorem identify_throws_when_root_has_no_primary:
  "(buildResponse primaryId db = Inl TypeError \<longleftrightarrow>
      (\<forall>c \<in> set (findLinkedContacts primaryId db). linkPrecedence c \<noteq> PRIMARY)) \<and>
   ((\<exists>v. buildResponse primaryId db = Inr v) \<longleftrightarrow>
      (\<exists>c \<in> set (findLinkedContacts primaryId db). linkPrecedence c = PRIMARY)) \<and>
   ((truthy (req_email request) \<or> truthy (req_phoneNumber request)) \<and>
    matchedContacts request db \<noteq> [] \<and>
    length (matchedPrimaries request db) \<le> 1 \<and>
    primaryContactOf (matchedPrimaries request db) (matchedContacts request db) db
      = Some anchor \<and>
    (\<forall>c \<in> set (findLinkedContacts (id_c anchor) (snd (identifyContact request db))).
        linkPrecedence c \<noteq> PRIMARY)
    \<longrightarrow> fst (identifyContact request db) = Inl TypeError) \<and>
   (1 < length (matchedPrimaries request db) \<and>
    (\<forall>c \<in> set (findLinkedContacts (id_c (hd (matchedPrimaries request db)))
                                    (snd (identifyContact request db))).
        linkPrecedence c \<noteq> PRIMARY)
    \<longrightarrow> fst (identifyContact request db) = Inl TypeError)"
proof -
  have total: "(\<exists>v. buildResponse primaryId db = Inr v) \<longleftrightarrow>
      (\<exists>c \<in> set (findLinkedContacts primaryId db). linkPrecedence c = PRIMARY)"
  proof (cases "find isPrimary (findLinkedContacts primaryId db)")
    case None
    from buildResponse_no_primary [OF None] None show ?thesis
      by (simp add: find_None_all isPrimary_def)
  next
    case (Some a)
    from buildResponse_primary [OF Some] find_Some_D [OF Some] show ?thesis
      by (auto simp: isPrimary_def)
  qed
  have direct: "fst (identifyContact request db) = Inl TypeError"
    if "truthy (req_email request) \<or> truthy (req_phoneNumber request)"
      and "matchedContacts request db \<noteq> []"
      and "length (matchedPrimaries request db) \<le> 1"
      and "primaryContactOf (matchedPrimaries request db) (matchedContacts request db) db
             = Some anchor"
      and "\<forall>c \<in> set (findLinkedContacts (id_c anchor) (snd (identifyContact request db))).
             linkPrecedence c \<noteq> PRIMARY"
    using that(5) unfolding identify_direct [OF that(1-4)] Let_def
    by (simp add: buildResponse_TypeError_iff split: if_splits)
  have merge: "fst (identifyContact request db) = Inl TypeError"
    if "1 < length (matchedPrimaries request db)"
      and "\<forall>c \<in> set (findLinkedContacts (id_c (hd (matchedPrimaries request db)))
                                        (snd (identifyContact request db))).
             linkPrecedence c \<noteq> PRIMARY"
  proof -
    from that(1) obtain survivor other others
      where ps: "matchedPrimaries request db = survivor # other # others"
      by (cases "matchedPrimaries request db"; cases "tl (matchedPrimaries request db)") auto
    from that(2) show ?thesis
      unfolding identify_merge [OF ps] Let_def ps
      by (simp add: buildResponse_TypeError_iff split: if_splits)
  qed
  from buildResponse_TypeError_iff [of primaryId db] total direct merge
  show ?thesis by blast
qed

theorem identify_throws_when_root_has_no_primary_witness:
  "identifyContact (request_of (Some ''a@x'') (Some ''2'')) familyDb =
     (Inr \<lparr>primaryContactId = 1, emails = [''a@x'', ''b@x''], phoneNumbers = [''1'', ''2''],
           secondaryContactIds = [2]\<rparr>, mergedDb) \<and>
   filter isPrimary (findLinkedContacts 2 mergedDb) = [] \<and>
   buildResponse 2 mergedDb = Inl TypeError \<and>
   fst (identifyContact (request_of (Some ''c@x'') None) mergedDb) = Inl TypeError"
proof -
  let ?request = "request_of (Some ''c@x'') None"
  let ?anchor = "(contact_of 2 (Some ''b@x'') (Some ''2'') (Some 1) SECONDARY 20)
                   \<lparr>updatedAt := 40\<rparr>"
  note inst = identify_throws_when_root_has_no_primary [of 2 mergedDb ?request ?anchor]
  have none: "\<forall>c \<in> set (findLinkedContacts 2 mergedDb). linkPrecedence c \<noteq> PRIMARY"
    by code_simp
  have build: "buildResponse 2 mergedDb = Inl TypeError"
    using inst none by blast
  have pre: "(truthy (req_email ?request) \<or> truthy (req_phoneNumber ?request)) \<and>
    matchedContacts ?request mergedDb \<noteq> [] \<and>
    length (matchedPrimaries ?request mergedDb) \<le> 1 \<and>
    primaryContactOf (matchedPrimaries ?request mergedDb) (matchedContacts ?request mergedDb)
      mergedDb = Some ?anchor \<and>
    (\<forall>c \<in> set (findLinkedContacts (id_c ?anchor) (snd (identifyContact ?request mergedDb))).
        linkPrecedence c \<noteq> PRIMARY)"
    by code_simp
  have call: "fst (identifyContact ?request mergedDb) = Inl TypeError"
    using inst pre by blast
  have empty: "filter isPrimary (findLinkedContacts 2 mergedDb) = []"
    by code_simp
  show ?thesis
    using mergedDb_reached empty build call by blast
qed

end
